theory Spec2Isabelle
  imports Main
begin

unbundle bit_operations_syntax

section \<open>Win+D on a single monitor: the embedding of main.py\<close>

text \<open>
  The program is a Windows tray utility. A low-level keyboard hook (class WinDHook)
  swallows the D key while a Win key is held and calls the controller; the controller
  (class Controller) minimizes the windows of one monitor and restores them on the next
  call. Python integers are \<open>int\<close>, a window handle is the integer pywin32 returns, a
  rectangle is the tuple (l, t, r, b). What the program reads from Windows is a record
  of query results; what it asks Windows to do is a list of calls.
\<close>

subsection \<open>Constants of the Windows API\<close>

definition WM_KEYDOWN :: int where "WM_KEYDOWN = 0x0100"
definition WM_KEYUP :: int where "WM_KEYUP = 0x0101"
definition WM_SYSKEYDOWN :: int where "WM_SYSKEYDOWN = 0x0104"
definition WM_SYSKEYUP :: int where "WM_SYSKEYUP = 0x0105"

definition VK_LWIN :: int where "VK_LWIN = 0x5B"
definition VK_RWIN :: int where "VK_RWIN = 0x5C"
definition VK_D :: int where "VK_D = 0x44"

text \<open>The values win32con gives the names the program imports from it.\<close>

definition WS_EX_TOOLWINDOW :: int where "WS_EX_TOOLWINDOW = 0x80"
definition SW_SHOWMINIMIZED :: int where "SW_SHOWMINIMIZED = 2"
definition SW_MINIMIZE :: int where "SW_MINIMIZE = 6"
definition SW_RESTORE :: int where "SW_RESTORE = 9"

subsection \<open>The keyboard hook: WinDHook._callback\<close>

text \<open>
  One call of the hook procedure: nCode, wParam and the vkCode field of the
  KBDLLHOOKSTRUCT behind lParam (the only field the callback reads).
\<close>

record kbd_event =
  nCode :: int
  wParam :: int
  vkCode :: int

text \<open>The two flags of WinDHook: \<open>_win_down\<close> and \<open>_suppress_d_up\<close>.\<close>

record hook_state =
  win_down :: bool
  suppress_d_up :: bool

text \<open>
  What the callback returns: the result of CallNextHookEx on the arguments it forwards
  (the event goes on to the next consumer), or 1 (the event is swallowed).
\<close>

datatype hook_ret = CallNextHookEx kbd_event | Swallowed

text \<open>
  \<open>on_win_d\<close> is the function handed to the hook. It works on a client state \<open>'c\<close> and
  either returns or raises; the callback's \<open>try: ... except Exception: pass\<close> keeps
  whatever state the call left behind in both cases.
\<close>

datatype 'c outcome = Returned 'c | Raised 'c

fun outcome_state :: "'c outcome \<Rightarrow> 'c" where
  "outcome_state (Returned c) = c"
| "outcome_state (Raised c) = c"

definition hook_init :: hook_state where
  "hook_init = \<lparr>win_down = False, suppress_d_up = False\<rparr>"

definition callback ::
  "('c \<Rightarrow> 'c outcome) \<Rightarrow> hook_state \<times> 'c \<Rightarrow> kbd_event \<Rightarrow> hook_ret \<times> hook_state \<times> 'c" where
  "callback on_win_d sc e =
     (case sc of (s, c) \<Rightarrow>
        if nCode e < 0 then (CallNextHookEx e, s, c)
        else
          let vk = vkCode e;
              is_down = (wParam e = WM_KEYDOWN \<or> wParam e = WM_SYSKEYDOWN);
              is_up = (wParam e = WM_KEYUP \<or> wParam e = WM_SYSKEYUP)
          in
            if vk = VK_LWIN \<or> vk = VK_RWIN then
              (CallNextHookEx e,
               (if is_down then s\<lparr>win_down := True\<rparr>
                else if is_up then s\<lparr>win_down := False\<rparr>
                else s),
               c)
            else if win_down s \<and> vk = VK_D \<and> is_down then
              (Swallowed, s\<lparr>suppress_d_up := True\<rparr>, outcome_state (on_win_d c))
            else if suppress_d_up s \<and> vk = VK_D \<and> is_up then
              (Swallowed, s\<lparr>suppress_d_up := False\<rparr>, c)
            else (CallNextHookEx e, s, c))"

text \<open>
  Windows delivers the events one at a time; the hook's flags and the client's state
  are carried from one call to the next.
\<close>

fun run_hook ::
  "('c \<Rightarrow> 'c outcome) \<Rightarrow> hook_state \<times> 'c \<Rightarrow> kbd_event list \<Rightarrow> hook_ret list \<times> hook_state \<times> 'c" where
  "run_hook on_win_d sc [] = ([], sc)"
| "run_hook on_win_d sc (e # es) =
     (case callback on_win_d sc e of
        (r, sc') \<Rightarrow>
          (case run_hook on_win_d sc' es of (rs, sc'') \<Rightarrow> (r # rs, sc'')))"

text \<open>
  Reading a run from the hook's initial state: the flags just before event \<open>i\<close>, the
  client's state at the end, and what the callback returned for event \<open>i\<close>.
\<close>

definition hook_before :: "('c \<Rightarrow> 'c outcome) \<Rightarrow> 'c \<Rightarrow> kbd_event list \<Rightarrow> nat \<Rightarrow> hook_state" where
  "hook_before on_win_d c es i = fst (snd (run_hook on_win_d (hook_init, c) (take i es)))"

definition client_after :: "('c \<Rightarrow> 'c outcome) \<Rightarrow> 'c \<Rightarrow> kbd_event list \<Rightarrow> 'c" where
  "client_after on_win_d c es = snd (snd (run_hook on_win_d (hook_init, c) es))"

definition returned :: "('c \<Rightarrow> 'c outcome) \<Rightarrow> 'c \<Rightarrow> kbd_event list \<Rightarrow> hook_ret list" where
  "returned on_win_d c es = fst (run_hook on_win_d (hook_init, c) es)"

text \<open>A client that only counts how often it was called.\<close>

definition count_call :: "nat \<Rightarrow> nat outcome" where
  "count_call n = Returned (Suc n)"

definition trigger_count :: "kbd_event list \<Rightarrow> nat" where
  "trigger_count es = client_after count_call 0 es"

subsection \<open>The vocabulary of the specification for key events\<close>

text \<open>
  A call with a negative nCode is one the hook protocol tells the procedure to hand on
  without looking at it; a key event the callback processes has nCode \<open>\<ge> 0\<close>.
\<close>

definition processed :: "kbd_event \<Rightarrow> bool" where
  "processed e = (0 \<le> nCode e)"

definition key_down :: "kbd_event \<Rightarrow> bool" where
  "key_down e = (wParam e = WM_KEYDOWN \<or> wParam e = WM_SYSKEYDOWN)"

definition key_up :: "kbd_event \<Rightarrow> bool" where
  "key_up e = (wParam e = WM_KEYUP \<or> wParam e = WM_SYSKEYUP)"

definition is_modifier :: "kbd_event \<Rightarrow> bool" where
  "is_modifier e = (vkCode e = VK_LWIN \<or> vkCode e = VK_RWIN)"

definition modifier_down :: "kbd_event \<Rightarrow> bool" where
  "modifier_down e = (processed e \<and> is_modifier e \<and> key_down e)"

definition modifier_up :: "kbd_event \<Rightarrow> bool" where
  "modifier_up e = (processed e \<and> is_modifier e \<and> key_up e)"

definition d_down :: "kbd_event \<Rightarrow> bool" where
  "d_down e = (processed e \<and> vkCode e = VK_D \<and> key_down e)"

definition d_up :: "kbd_event \<Rightarrow> bool" where
  "d_up e = (processed e \<and> vkCode e = VK_D \<and> key_up e)"

text \<open>
  Event \<open>k\<close> is a detection: a D-down that arrives while the hook tracks the modifier as
  held. Event \<open>i\<close> is the release that pairs with a detection: the first D-up after it.
\<close>

definition detection :: "('c \<Rightarrow> 'c outcome) \<Rightarrow> 'c \<Rightarrow> kbd_event list \<Rightarrow> nat \<Rightarrow> bool" where
  "detection on_win_d c es k = (d_down (es ! k) \<and> win_down (hook_before on_win_d c es k))"

definition paired_release :: "('c \<Rightarrow> 'c outcome) \<Rightarrow> 'c \<Rightarrow> kbd_event list \<Rightarrow> nat \<Rightarrow> bool" where
  "paired_release on_win_d c es i =
     (d_up (es ! i) \<and>
      (\<exists>k<i. detection on_win_d c es k \<and> (\<forall>m. k < m \<and> m < i \<longrightarrow> \<not> d_up (es ! m))))"

text \<open>
  "A modifier-down immediately followed by a secondary-key-down": two neighbours of
  the sequence.
\<close>

fun adjacent_combo :: "kbd_event list \<Rightarrow> bool" where
  "adjacent_combo (a # b # es) = ((modifier_down a \<and> d_down b) \<or> adjacent_combo (b # es))"
| "adjacent_combo _ = False"

text \<open>
  The modifier is held after a sequence when the last modifier edge in it is a press.
\<close>

definition modifier_edges :: "kbd_event list \<Rightarrow> kbd_event list" where
  "modifier_edges es = filter (\<lambda>e. modifier_down e \<or> modifier_up e) es"

definition modifier_held :: "kbd_event list \<Rightarrow> bool" where
  "modifier_held es =
     (case rev (modifier_edges es) of [] \<Rightarrow> False | e # _ \<Rightarrow> modifier_down e)"

subsection \<open>Concrete key sequences\<close>

definition VK_E :: int where "VK_E = 0x45"

definition key :: "int \<Rightarrow> int \<Rightarrow> kbd_event" where
  "key msg vk = \<lparr>nCode = 0, wParam = msg, vkCode = vk\<rparr>"

text \<open>Win down, E down, D down, E up, D up, Win up.\<close>

definition win_e_d_keys :: "kbd_event list" where
  "win_e_d_keys =
     [key WM_KEYDOWN VK_LWIN, key WM_KEYDOWN VK_E, key WM_KEYDOWN VK_D,
      key WM_KEYUP VK_E, key WM_KEYUP VK_D, key WM_KEYUP VK_LWIN]"

text \<open>Win down, Win up, then D typed on its own.\<close>

definition win_then_d_keys :: "kbd_event list" where
  "win_then_d_keys =
     [key WM_KEYDOWN VK_LWIN, key WM_KEYUP VK_LWIN, key WM_KEYDOWN VK_D, key WM_KEYUP VK_D]"

subsection \<open>What the program reads from Windows\<close>

type_synonym rect = "int \<times> int \<times> int \<times> int"
type_synonym hwnd = int

text \<open>
  A snapshot of the answers Windows gives at one moment. A pywin32 call that raises is
  \<open>None\<close>. EnumDisplayMonitors lists, per monitor, the handle, the rectangle (l, t, r, b)
  and the Flags entry of GetMonitorInfo; GetWindowLong is asked for GWL_EXSTYLE only,
  GetWindowPlacement is read at index 1 (showCmd) only. \<open>write_text\<close> says how writing
  the configuration file ends.
\<close>

text \<open>
  How \<open>CONFIG_PATH.parent.mkdir(..)\<close> followed by \<open>CONFIG_PATH.write_text(..)\<close> ends: the
  text is written; an exception is raised before the file is opened (the directory
  cannot be made, the file cannot be opened); or an exception is raised after the file
  was opened for writing, which has emptied it.
\<close>

datatype write_end = Written | Not_opened | Cut_short

record os =
  EnumDisplayMonitors :: "(int \<times> rect \<times> int) list"
  GetCursorPos :: "int \<times> int"
  EnumWindows :: "hwnd list"
  IsWindowVisible :: "hwnd \<Rightarrow> bool"
  GetClassName :: "hwnd \<Rightarrow> string option"
  GetWindowLong :: "hwnd \<Rightarrow> int option"
  GetWindowRect :: "hwnd \<Rightarrow> rect option"
  GetWindowPlacement :: "hwnd \<Rightarrow> int option"
  write_text :: write_end

text \<open>What the program asks Windows to do to a window: ShowWindow(hwnd, nCmdShow).\<close>

datatype os_call = ShowWindow hwnd int

subsection \<open>Monitor helpers\<close>

record monitor =
  handle :: int
  rect :: rect
  primary :: bool

definition get_monitors :: "os \<Rightarrow> monitor list" where
  "get_monitors w =
     map (\<lambda>(hmon, r, flags). \<lparr>handle = hmon, rect = r, primary = (flags = 1)\<rparr>)
       (EnumDisplayMonitors w)"

definition point_in_rect :: "int \<Rightarrow> int \<Rightarrow> rect \<Rightarrow> bool" where
  "point_in_rect x y rc = (case rc of (l, t, r, b) \<Rightarrow> (l \<le> x \<and> x < r) \<and> (t \<le> y \<and> y < b))"

text \<open>
  The loop \<open>for i, m in enumerate(monitors): if point_in_rect(..): return i\<close> followed by
  \<open>return None\<close>, which get_cursor_monitor_idx and get_window_monitor_idx both run;
  \<open>i\<close> is the index of the head of the list.
\<close>

fun monitor_loop :: "int \<Rightarrow> int \<Rightarrow> nat \<Rightarrow> monitor list \<Rightarrow> nat option" where
  "monitor_loop x y i [] = None"
| "monitor_loop x y i (m # ms) =
     (if point_in_rect x y (rect m) then Some i else monitor_loop x y (Suc i) ms)"

definition get_cursor_monitor_idx :: "os \<Rightarrow> monitor list \<Rightarrow> nat option" where
  "get_cursor_monitor_idx w mons =
     (case GetCursorPos w of (x, y) \<Rightarrow> monitor_loop x y 0 mons)"

subsection \<open>Window helpers\<close>

text \<open>\<open>None\<close>: one of the queries raised.\<close>

definition is_real_window :: "os \<Rightarrow> hwnd \<Rightarrow> bool option" where
  "is_real_window w h =
     (if \<not> IsWindowVisible w h then Some False
      else case GetClassName w h of
        None \<Rightarrow> None
      | Some cls \<Rightarrow>
          if cls = ''Progman'' \<or> cls = ''Shell_TrayWnd'' then Some False
          else case GetWindowLong w h of
            None \<Rightarrow> None
          | Some ex \<Rightarrow> if ex AND WS_EX_TOOLWINDOW \<noteq> 0 then Some False else Some True)"

definition get_window_monitor_idx :: "os \<Rightarrow> monitor list \<Rightarrow> hwnd \<Rightarrow> nat option" where
  "get_window_monitor_idx w mons h =
     (case GetWindowRect w h of
        None \<Rightarrow> None
      | Some (l, t, r, b) \<Rightarrow>
          let cx = (l + r) div 2; cy = (t + b) div 2
          in monitor_loop cx cy 0 mons)"

text \<open>
  The callback of EnumWindows: it appends the handle to \<open>result\<close> or leaves \<open>result\<close>
  alone; any exception inside it is swallowed.
\<close>

definition cb :: "os \<Rightarrow> monitor list \<Rightarrow> int \<Rightarrow> hwnd list \<Rightarrow> hwnd \<Rightarrow> hwnd list" where
  "cb w mons idx result h =
     (case is_real_window w h of
        None \<Rightarrow> result
      | Some False \<Rightarrow> result
      | Some True \<Rightarrow>
          let mi = get_window_monitor_idx w mons h
          in if map_option int mi = Some idx then
               (case GetWindowPlacement w h of
                  None \<Rightarrow> result
                | Some placement1 \<Rightarrow>
                    if placement1 \<noteq> SW_SHOWMINIMIZED then result @ [h] else result)
             else result)"

definition enum_windows_on_monitor :: "os \<Rightarrow> monitor list \<Rightarrow> int \<Rightarrow> hwnd list" where
  "enum_windows_on_monitor w mons idx = foldl (cb w mons idx) [] (EnumWindows w)"

subsection \<open>Configuration\<close>

record config =
  allowed_monitor :: int
  autostart :: bool

text \<open>
  The file at CONFIG_PATH: absent; present but such that reading it raises (no JSON, no
  object, a value int() rejects); or a JSON object, of which load_config reads
  \<open>int(data.get("allowed_monitor", 0))\<close> and \<open>bool(data.get("autostart", False))\<close>:
  the two arguments are these two entries after conversion, \<open>None\<close> for a missing key.
\<close>

datatype config_file = NoFile | Unreadable | Json "int option" "bool option"

definition load_config :: "config_file \<Rightarrow> config" where
  "load_config f =
     (case f of
        Json am au \<Rightarrow>
          \<lparr>allowed_monitor = (case am of None \<Rightarrow> 0 | Some n \<Rightarrow> n),
           autostart = (case au of None \<Rightarrow> False | Some b \<Rightarrow> b)\<rparr>
      | _ \<Rightarrow> \<lparr>allowed_monitor = 0, autostart = False\<rparr>)"

text \<open>
  save_config writes the whole dictionary. A write that fails before the file is opened
  leaves the file as it was; one that fails later leaves a file that is empty or holds
  the beginning of the text, which load_config cannot read.
\<close>

definition save_config :: "os \<Rightarrow> config \<Rightarrow> config_file \<Rightarrow> config_file outcome" where
  "save_config w c f =
     (case write_text w of
        Written \<Rightarrow> Returned (Json (Some (allowed_monitor c)) (Some (autostart c)))
      | Not_opened \<Rightarrow> Raised f
      | Cut_short \<Rightarrow> Raised Unreadable)"

subsection \<open>Core controller\<close>

record controller =
  cfg :: config
  monitors :: "monitor list"
  allowed :: int
  toggled :: bool
  minimized :: "hwnd list"

text \<open>The controller together with the configuration file it loads and saves.\<close>

record sys =
  ctrl :: controller
  config_path :: config_file

definition Controller_init :: "config_file \<Rightarrow> os \<Rightarrow> sys" where
  "Controller_init f w =
     (let c = load_config f
      in \<lparr>ctrl = \<lparr>cfg = c, monitors = get_monitors w, allowed = allowed_monitor c,
                    toggled = False, minimized = []\<rparr>,
          config_path = f\<rparr>)"

definition refresh_monitors :: "os \<Rightarrow> sys \<Rightarrow> sys" where
  "refresh_monitors w s = s\<lparr>ctrl := (ctrl s)\<lparr>monitors := get_monitors w\<rparr>\<rparr>"

definition set_allowed :: "os \<Rightarrow> int \<Rightarrow> sys \<Rightarrow> sys outcome" where
  "set_allowed w idx s =
     (let a = max 0 idx;
          c1 = (ctrl s)\<lparr>allowed := a\<rparr>;
          c2 = c1\<lparr>cfg := (cfg c1)\<lparr>allowed_monitor := allowed c1\<rparr>\<rparr>
      in case save_config w (cfg c2) (config_path s) of
           Returned f \<Rightarrow> Returned \<lparr>ctrl = c2, config_path = f\<rparr>
         | Raised f \<Rightarrow> Raised \<lparr>ctrl = c2, config_path = f\<rparr>)"

text \<open>
  The calls are listed in the order they are made. A ShowWindow that raises is
  swallowed where it is made, so the loop goes on and the list is the same.
\<close>

definition toggle_desktop_single_monitor :: "os \<Rightarrow> controller \<Rightarrow> controller \<times> os_call list" where
  "toggle_desktop_single_monitor w self =
     (let mons = monitors self;
          a = allowed self;
          cursor_m = get_cursor_monitor_idx w mons
      in if map_option int cursor_m \<noteq> Some a then (self, [])
         else if \<not> toggled self then
           (let wins = enum_windows_on_monitor w mons a
            in (self\<lparr>minimized := wins, toggled := True\<rparr>,
                map (\<lambda>h. ShowWindow h SW_MINIMIZE) wins))
         else
           (self\<lparr>minimized := [], toggled := False\<rparr>,
            map (\<lambda>h. ShowWindow h SW_RESTORE) (rev (minimized self))))"

subsection \<open>The controller's lock\<close>

text \<open>
  The controller has one lock, \<open>self._lock\<close>. refresh_monitors and set_allowed run their
  whole body inside \<open>with self._lock:\<close>, toggle_desktop_single_monitor the two reads at
  its beginning. The statements of these blocks, in the order they run:
\<close>

datatype stmt =
    Acquire_lock
  | Release_lock
  | Assign_allowed int
  | Assign_cfg_allowed_monitor
  | Call_save_config
  | Assign_monitors
  | Read_monitors
  | Read_allowed

definition refresh_monitors_stmts :: "stmt list" where
  "refresh_monitors_stmts = [Acquire_lock, Assign_monitors, Release_lock]"

definition set_allowed_stmts :: "int \<Rightarrow> stmt list" where
  "set_allowed_stmts idx =
     [Acquire_lock, Assign_allowed (max 0 idx), Assign_cfg_allowed_monitor, Call_save_config,
      Release_lock]"

definition toggle_locked_stmts :: "stmt list" where
  "toggle_locked_stmts = [Acquire_lock, Read_monitors, Read_allowed, Release_lock]"

text \<open>What a statement other than the two of the lock does to the controller.\<close>

fun effect :: "os \<Rightarrow> stmt \<Rightarrow> sys \<Rightarrow> sys outcome" where
  "effect w (Assign_allowed v) s = Returned (s\<lparr>ctrl := (ctrl s)\<lparr>allowed := v\<rparr>\<rparr>)"
| "effect w Assign_cfg_allowed_monitor s =
     Returned (s\<lparr>ctrl := (ctrl s)\<lparr>cfg := (cfg (ctrl s))\<lparr>allowed_monitor := allowed (ctrl s)\<rparr>\<rparr>\<rparr>)"
| "effect w Call_save_config s =
     (case save_config w (cfg (ctrl s)) (config_path s) of
        Returned f \<Rightarrow> Returned (s\<lparr>config_path := f\<rparr>)
      | Raised f \<Rightarrow> Raised (s\<lparr>config_path := f\<rparr>))"
| "effect w Assign_monitors s = Returned (s\<lparr>ctrl := (ctrl s)\<lparr>monitors := get_monitors w\<rparr>\<rparr>)"
| "effect w _ s = Returned s"

text \<open>
  A run of such statements by one thread: the controller, whether the lock is held,
  whether an exception is on its way out of the block, whether the thread waits for
  the lock (another thread holds it), and the statements that ran while the lock was
  not held.
\<close>

record run_state =
  now :: sys
  lock_held :: bool
  raised :: bool
  waiting :: bool
  unguarded :: "stmt list"

definition run_start :: "sys \<Rightarrow> run_state" where
  "run_start s = \<lparr>now = s, lock_held = False, raised = False, waiting = False, unguarded = []\<rparr>"

text \<open>
  The lock is not reentrant: to acquire it while it is held is to wait. Leaving the
  block releases the lock, also when an exception leaves it; the exception skips the
  statements in between.
\<close>

fun exec_stmt :: "os \<Rightarrow> run_state \<Rightarrow> stmt \<Rightarrow> run_state" where
  "exec_stmt w r Acquire_lock =
     (if waiting r \<or> raised r then r
      else if lock_held r then r\<lparr>waiting := True\<rparr>
      else r\<lparr>lock_held := True\<rparr>)"
| "exec_stmt w r Release_lock = (if waiting r then r else r\<lparr>lock_held := False\<rparr>)"
| "exec_stmt w r st =
     (if waiting r \<or> raised r then r
      else
        (case effect w st (now r) of
           Returned s \<Rightarrow>
             r\<lparr>now := s, unguarded := (if lock_held r then unguarded r else unguarded r @ [st])\<rparr>
         | Raised s \<Rightarrow>
             r\<lparr>now := s, raised := True,
               unguarded := (if lock_held r then unguarded r else unguarded r @ [st])\<rparr>))"

definition exec_stmts :: "os \<Rightarrow> run_state \<Rightarrow> stmt list \<Rightarrow> run_state" where
  "exec_stmts w r sts = foldl (exec_stmt w) r sts"

subsection \<open>Sequences of controller operations\<close>

datatype op = Trigger | SetAllowed int | RefreshMonitors

text \<open>
  One operation, made while Windows is in the given snapshot. An exception of
  set_allowed goes to its caller; the controller keeps what was assigned before it.
\<close>

fun step :: "os \<times> op \<Rightarrow> sys \<Rightarrow> sys \<times> os_call list" where
  "step (w, Trigger) s =
     (case toggle_desktop_single_monitor w (ctrl s) of (c, calls) \<Rightarrow> (s\<lparr>ctrl := c\<rparr>, calls))"
| "step (w, SetAllowed idx) s = (outcome_state (set_allowed w idx s), [])"
| "step (w, RefreshMonitors) s = (refresh_monitors w s, [])"

fun run_ops :: "(os \<times> op) list \<Rightarrow> sys \<Rightarrow> sys" where
  "run_ops [] s = s"
| "run_ops (x # xs) s = run_ops xs (fst (step x s))"

text \<open>
  The most recent step that took the controller from Idle to Minimized: the snapshot
  it ran in and the calls it made.
\<close>

fun last_transition ::
  "(os \<times> op) list \<Rightarrow> sys \<Rightarrow> (os \<times> os_call list) option \<Rightarrow> (os \<times> os_call list) option" where
  "last_transition [] s g = g"
| "last_transition (x # xs) s g =
     last_transition xs (fst (step x s))
       (if \<not> toggled (ctrl s) \<and> toggled (ctrl (fst (step x s)))
        then Some (fst x, snd (step x s)) else g)"

fun is_set_allowed :: "op \<Rightarrow> bool" where
  "is_set_allowed (SetAllowed idx) = True"
| "is_set_allowed _ = False"

subsection \<open>The vocabulary of the specification for windows\<close>

text \<open>
  An eligible window on monitor \<open>idx\<close>: visible, not of a reserved shell class, without
  the tool-window style, its centre on that monitor, and not minimized. Each property
  says that Windows answers the query and what the answer is: a window whose class,
  style, rectangle or placement cannot be read has none of them.
\<close>

definition visible_window :: "os \<Rightarrow> hwnd \<Rightarrow> bool" where
  "visible_window w h = IsWindowVisible w h"

definition unreserved_class :: "os \<Rightarrow> hwnd \<Rightarrow> bool" where
  "unreserved_class w h =
     (case GetClassName w h of None \<Rightarrow> False
      | Some cls \<Rightarrow> cls \<noteq> ''Progman'' \<and> cls \<noteq> ''Shell_TrayWnd'')"

definition no_tool_style :: "os \<Rightarrow> hwnd \<Rightarrow> bool" where
  "no_tool_style w h =
     (case GetWindowLong w h of None \<Rightarrow> False | Some ex \<Rightarrow> ex AND WS_EX_TOOLWINDOW = 0)"

definition centre_on :: "os \<Rightarrow> monitor list \<Rightarrow> int \<Rightarrow> hwnd \<Rightarrow> bool" where
  "centre_on w mons idx h = (map_option int (get_window_monitor_idx w mons h) = Some idx)"

definition not_minimized :: "os \<Rightarrow> hwnd \<Rightarrow> bool" where
  "not_minimized w h =
     (case GetWindowPlacement w h of None \<Rightarrow> False | Some p \<Rightarrow> p \<noteq> SW_SHOWMINIMIZED)"

definition already_minimized :: "os \<Rightarrow> hwnd \<Rightarrow> bool" where
  "already_minimized w h = (GetWindowPlacement w h = Some SW_SHOWMINIMIZED)"

definition eligible_on :: "os \<Rightarrow> monitor list \<Rightarrow> int \<Rightarrow> hwnd \<Rightarrow> bool" where
  "eligible_on w mons idx h =
     (visible_window w h \<and> unreserved_class w h \<and> no_tool_style w h
      \<and> centre_on w mons idx h \<and> not_minimized w h)"

definition cursor_on_allowed :: "os \<Rightarrow> controller \<Rightarrow> bool" where
  "cursor_on_allowed w c =
     (map_option int (get_cursor_monitor_idx w (monitors c)) = Some (allowed c))"

subsection \<open>Starting the hook: WinDHook.start\<close>

text \<open>
  What the hook thread gets from Windows: its thread id, the handle SetWindowsHookExW
  returns (\<open>None\<close> for NULL) and the values GetMessageW returns one after the other.
\<close>

record hook_api =
  GetCurrentThreadId :: int
  SetWindowsHookExW :: "int option"
  GetMessageW :: "int list"

record hook_obj =
  hook :: "int option"
  thread_id :: "int option"

text \<open>
  How the thread's function ends: it returns, it dies of an exception nobody catches,
  or it waits in GetMessageW for a message that never comes.
\<close>

datatype thread_end = Exited | Died string | Waiting

text \<open>
  The message loop \<open>while GetMessageW(..) != 0\<close>: True when a 0 ends it, False when the
  messages run out first.
\<close>

fun message_loop :: "int list \<Rightarrow> bool" where
  "message_loop [] = False"
| "message_loop (r # rs) = (if r \<noteq> 0 then message_loop rs else True)"

definition run :: "hook_api \<Rightarrow> hook_obj \<Rightarrow> thread_end \<times> hook_obj" where
  "run api self =
     (let self1 = self\<lparr>thread_id := Some (GetCurrentThreadId api)\<rparr>;
          self2 = self1\<lparr>hook := SetWindowsHookExW api\<rparr>
      in if hook self2 = None \<or> hook self2 = Some 0
         then (Died ''Failed to install keyboard hook'', self2)
         else if message_loop (GetMessageW api)
           then (Exited, self2\<lparr>hook := None\<rparr>)
           else (Waiting, self2))"

text \<open>
  \<open>start\<close> returns to its caller as soon as the thread is started; \<open>run\<close> executes in
  that thread. The first component is what the caller of \<open>start\<close> gets, the second what
  becomes of the thread, if one was started. \<open>alive\<close> is
  \<open>self.thread and self.thread.is_alive()\<close>.
\<close>

definition start :: "hook_api \<Rightarrow> bool \<Rightarrow> hook_obj \<Rightarrow> unit outcome \<times> (thread_end \<times> hook_obj) option" where
  "start api alive self =
     (if alive then (Returned (), None)
      else (Returned (), Some (run api self)))"

definition WinDHook_init :: hook_obj where
  "WinDHook_init = \<lparr>hook = None, thread_id = None\<rparr>"

definition hook_refused :: hook_api where
  "hook_refused = \<lparr>GetCurrentThreadId = 4242, SetWindowsHookExW = None, GetMessageW = [1, 1, 0]\<rparr>"

subsection \<open>A concrete desktop\<close>

text \<open>
  Two monitors side by side, the left one primary, and six top-level windows: 10 and 15
  are ordinary windows on the left monitor, 11 is on the right monitor, 12 is the
  shell's desktop window, 13 is minimized, 14 is a tool window. The cursor is on the
  left monitor.
\<close>

definition desk :: os where
  "desk =
     \<lparr>EnumDisplayMonitors = [(65537, (0, 0, 1920, 1080), 1), (65539, (1920, 0, 3840, 1080), 0)],
      GetCursorPos = (100, 100),
      EnumWindows = [10, 11, 12, 13, 14, 15],
      IsWindowVisible = (\<lambda>h. True),
      GetClassName = (\<lambda>h. if h = 12 then Some ''Progman'' else Some ''Notepad''),
      GetWindowLong = (\<lambda>h. if h = 14 then Some 0x180 else Some 0x100),
      GetWindowRect = (\<lambda>h. if h = 11 then Some (2000, 100, 3000, 900) else Some (100, 100, 500, 400)),
      GetWindowPlacement = (\<lambda>h. if h = 13 then Some 2 else Some 1),
      write_text = Written\<rparr>"

text \<open>The same desktop with the cursor on the right monitor.\<close>

definition desk_right :: os where
  "desk_right = desk\<lparr>GetCursorPos := (2500, 100)\<rparr>"

definition ctrl0 :: controller where
  "ctrl0 = ctrl (Controller_init NoFile desk)"

text \<open>The cursor exactly on the edge the two monitors share, and outside both.\<close>

definition desk_edge :: os where
  "desk_edge = desk\<lparr>GetCursorPos := (1920, 500)\<rparr>"

definition desk_outside :: os where
  "desk_outside = desk\<lparr>GetCursorPos := (3840, 1080)\<rparr>"

text \<open>The controller after Win+D was pressed once with the cursor on the left monitor.\<close>

definition ctrl1 :: controller where
  "ctrl1 = fst (toggle_desktop_single_monitor desk ctrl0)"

text \<open>
  A session: Win+D on the left monitor, then the right monitor is chosen in the tray
  menu, then the monitors are refreshed; and the same session followed by Win+D on the
  right monitor.
\<close>

definition session :: "(os \<times> op) list" where
  "session = [(desk, Trigger), (desk_right, SetAllowed 1), (desk, RefreshMonitors)]"

definition session_restored :: "(os \<times> op) list" where
  "session_restored = session @ [(desk_right, Trigger)]"

text \<open>A configuration file edited by hand.\<close>

definition negative_file :: config_file where
  "negative_file = Json (Some (- 1)) None"

section \<open>Facts about the keyboard hook\<close>

lemma run_hook_append:
  "run_hook on sc (xs @ ys) =
     (case run_hook on sc xs of
        (rs, sc') \<Rightarrow> (case run_hook on sc' ys of (rs', sc'') \<Rightarrow> (rs @ rs', sc'')))"
  by (induction xs arbitrary: sc) (auto split: prod.splits)

lemma run_hook_length: "length (fst (run_hook on sc es)) = length es"
proof (induction es arbitrary: sc)
  case Nil
  then show ?case by simp
next
  case (Cons e es)
  obtain r sc' where cb: "callback on sc e = (r, sc')" by (cases "callback on sc e")
  obtain rs sc'' where rh: "run_hook on sc' es = (rs, sc'')" by (cases "run_hook on sc' es")
  from Cons.IH [of sc'] rh have "length rs = length es" by simp
  with cb rh show ?case by simp
qed

lemma run_hook_snoc:
  "run_hook on sc (xs @ [x]) =
     (fst (run_hook on sc xs) @ [fst (callback on (snd (run_hook on sc xs)) x)],
      snd (callback on (snd (run_hook on sc xs)) x))"
  by (simp add: run_hook_append split: prod.splits)

lemma returned_nth:
  "i < length es \<Longrightarrow>
   fst (run_hook on sc es) ! i = fst (callback on (snd (run_hook on sc (take i es))) (es ! i))"
proof (induction es arbitrary: i rule: rev_induct)
  case Nil
  then show ?case by simp
next
  case (snoc x xs)
  show ?case
  proof (cases "i < length xs")
    case True
    then show ?thesis
      using snoc.IH [of i] by (simp add: run_hook_snoc nth_append run_hook_length)
  next
    case False
    with snoc.prems have "i = length xs" by simp
    then show ?thesis
      by (simp add: run_hook_snoc nth_append run_hook_length)
  qed
qed

lemma state_Suc:
  "i < length es \<Longrightarrow>
   snd (run_hook on sc (take (Suc i) es)) = snd (callback on (snd (run_hook on sc (take i es))) (es ! i))"
  by (simp add: take_Suc_conv_app_nth run_hook_snoc)

text \<open>one step of the flags\<close>

lemma callback_flags:
  "fst (snd (callback on (s, c) e)) =
     (if modifier_down e then s\<lparr>win_down := True\<rparr>
      else if modifier_up e then s\<lparr>win_down := False\<rparr>
      else if d_down e \<and> win_down s then s\<lparr>suppress_d_up := True\<rparr>
      else if d_up e \<and> suppress_d_up s then s\<lparr>suppress_d_up := False\<rparr>
      else s)"
  by (auto simp: callback_def Let_def modifier_down_def modifier_up_def d_down_def d_up_def
      processed_def is_modifier_def key_down_def key_up_def
      WM_KEYDOWN_def WM_KEYUP_def WM_SYSKEYDOWN_def WM_SYSKEYUP_def VK_LWIN_def VK_RWIN_def VK_D_def)

lemma callback_ret:
  "fst (callback on (s, c) e) =
     (if (d_down e \<and> win_down s) \<or> (d_up e \<and> suppress_d_up s) then Swallowed
      else CallNextHookEx e)"
  by (auto simp: callback_def Let_def modifier_down_def modifier_up_def d_down_def d_up_def
      processed_def is_modifier_def key_down_def key_up_def
      WM_KEYDOWN_def WM_KEYUP_def WM_SYSKEYDOWN_def WM_SYSKEYUP_def VK_LWIN_def VK_RWIN_def VK_D_def)

lemma callback_client:
  "snd (snd (callback on (s, c) e)) =
     (if d_down e \<and> win_down s then outcome_state (on c) else c)"
  by (auto simp: callback_def Let_def modifier_down_def modifier_up_def d_down_def d_up_def
      processed_def is_modifier_def key_down_def key_up_def
      WM_KEYDOWN_def WM_KEYUP_def WM_SYSKEYDOWN_def WM_SYSKEYUP_def VK_LWIN_def VK_RWIN_def VK_D_def)

lemma hook_before_0: "hook_before on c es 0 = hook_init"
  by (simp add: hook_before_def)

lemma hook_before_Suc:
  assumes "i < length es"
  shows "hook_before on c es (Suc i) =
     (if modifier_down (es ! i) then (hook_before on c es i)\<lparr>win_down := True\<rparr>
      else if modifier_up (es ! i) then (hook_before on c es i)\<lparr>win_down := False\<rparr>
      else if d_down (es ! i) \<and> win_down (hook_before on c es i)
        then (hook_before on c es i)\<lparr>suppress_d_up := True\<rparr>
      else if d_up (es ! i) \<and> suppress_d_up (hook_before on c es i)
        then (hook_before on c es i)\<lparr>suppress_d_up := False\<rparr>
      else hook_before on c es i)"
proof -
  obtain s c' where st: "snd (run_hook on (hook_init, c) (take i es)) = (s, c')"
    by (cases "snd (run_hook on (hook_init, c) (take i es))")
  have "hook_before on c es (Suc i) = fst (snd (callback on (s, c') (es ! i)))"
    using assms st by (simp add: hook_before_def state_Suc)
  moreover have "hook_before on c es i = s"
    using st by (simp add: hook_before_def)
  ultimately show ?thesis
    by (simp only: callback_flags)
qed

lemma returned_at:
  assumes "i < length es"
  shows "returned on c es ! i =
     (if (d_down (es ! i) \<and> win_down (hook_before on c es i))
          \<or> (d_up (es ! i) \<and> suppress_d_up (hook_before on c es i))
      then Swallowed else CallNextHookEx (es ! i))"
proof -
  obtain s c' where st: "snd (run_hook on (hook_init, c) (take i es)) = (s, c')"
    by (cases "snd (run_hook on (hook_init, c) (take i es))")
  have "returned on c es ! i = fst (callback on (s, c') (es ! i))"
    using assms st by (simp add: returned_def returned_nth)
  moreover have "hook_before on c es i = s"
    using st by (simp add: hook_before_def)
  ultimately show ?thesis
    by (simp only: callback_ret)
qed

lemma d_up_not_d_down: "d_up e \<Longrightarrow> \<not> d_down e"
  by (auto simp: d_up_def d_down_def key_up_def key_down_def
      WM_KEYDOWN_def WM_KEYUP_def WM_SYSKEYDOWN_def WM_SYSKEYUP_def)

lemma d_not_modifier: "d_down e \<or> d_up e \<Longrightarrow> \<not> is_modifier e"
  by (auto simp: d_up_def d_down_def is_modifier_def VK_LWIN_def VK_RWIN_def VK_D_def)

lemma modifier_edge_is_modifier: "modifier_down e \<or> modifier_up e \<Longrightarrow> is_modifier e"
  by (auto simp: modifier_down_def modifier_up_def)

lemma suppress_flag_char:
  assumes "i \<le> length es"
  shows "suppress_d_up (hook_before on c es i) =
     (\<exists>k<i. detection on c es k \<and> (\<forall>m. k < m \<and> m < i \<longrightarrow> \<not> d_up (es ! m)))"
  using assms
proof (induction i)
  case 0
  then show ?case by (simp add: hook_before_0 hook_init_def)
next
  case (Suc i)
  then have i: "i < length es" and
    IH: "suppress_d_up (hook_before on c es i) =
      (\<exists>k<i. detection on c es k \<and> (\<forall>m. k < m \<and> m < i \<longrightarrow> \<not> d_up (es ! m)))"
    by simp_all
  let ?s = "hook_before on c es i"
  let ?R = "\<lambda>j. \<exists>k<j. detection on c es k \<and> (\<forall>m. k < m \<and> m < j \<longrightarrow> \<not> d_up (es ! m))"
  have nomod: "d_down (es ! i) \<or> d_up (es ! i) \<Longrightarrow>
      \<not> modifier_down (es ! i) \<and> \<not> modifier_up (es ! i)"
    using d_not_modifier modifier_edge_is_modifier by blast
  consider (up) "d_up (es ! i)" | (det) "detection on c es i"
    | (other) "\<not> d_up (es ! i)" "\<not> detection on c es i" by blast
  then show ?case
  proof cases
    case up
    then have nd: "\<not> d_down (es ! i)" by (rule d_up_not_d_down)
    have "\<not> suppress_d_up (hook_before on c es (Suc i))"
      using up nd nomod by (simp add: hook_before_Suc [OF i])
    moreover have "\<not> ?R (Suc i)"
    proof
      assume "?R (Suc i)"
      then obtain k where k: "k < Suc i" "detection on c es k"
        "\<forall>m. k < m \<and> m < Suc i \<longrightarrow> \<not> d_up (es ! m)" by blast
      show False
      proof (cases "k = i")
        case True
        with k(2) nd show False by (simp add: detection_def)
      next
        case False
        with k(1) have "k < i" by simp
        with k(3) up show False by auto
      qed
    qed
    ultimately show ?thesis by simp
  next
    case det
    then have dd: "d_down (es ! i)" "win_down ?s" by (simp_all add: detection_def)
    have "suppress_d_up (hook_before on c es (Suc i))"
      using dd nomod by (simp add: hook_before_Suc [OF i])
    moreover have "?R (Suc i)"
      using det by (intro exI [of _ i]) auto
    ultimately show ?thesis by simp
  next
    case other
    have same: "suppress_d_up (hook_before on c es (Suc i)) = suppress_d_up ?s"
      using other by (auto simp: hook_before_Suc [OF i] detection_def)
    have "?R (Suc i) = ?R i"
    proof
      assume "?R (Suc i)"
      then obtain k where k: "k < Suc i" "detection on c es k"
        "\<forall>m. k < m \<and> m < Suc i \<longrightarrow> \<not> d_up (es ! m)" by blast
      from k(2) other(2) have "k \<noteq> i" by auto
      with k(1) have "k < i" by simp
      moreover from k(3) have "\<forall>m. k < m \<and> m < i \<longrightarrow> \<not> d_up (es ! m)" by simp
      ultimately show "?R i" using k(2) by blast
    next
      assume "?R i"
      then obtain k where k: "k < i" "detection on c es k"
        "\<forall>m. k < m \<and> m < i \<longrightarrow> \<not> d_up (es ! m)" by blast
      have "\<forall>m. k < m \<and> m < Suc i \<longrightarrow> \<not> d_up (es ! m)"
        using k(3) other(1) by (auto simp: less_Suc_eq)
      with k(1,2) show "?R (Suc i)" by (intro exI [of _ k]) simp
    qed
    with same IH show ?thesis by simp
  qed
qed

lemma modifier_down_not_up: "modifier_down e \<Longrightarrow> \<not> modifier_up e"
  by (auto simp: modifier_down_def modifier_up_def key_up_def key_down_def
      WM_KEYDOWN_def WM_KEYUP_def WM_SYSKEYDOWN_def WM_SYSKEYUP_def)

lemma modifier_held_snoc:
  "modifier_held (xs @ [x]) =
     (if modifier_down x then True else if modifier_up x then False else modifier_held xs)"
  using modifier_down_not_up [of x] by (auto simp: modifier_held_def modifier_edges_def)

lemma win_down_char:
  assumes "i \<le> length es"
  shows "win_down (hook_before on c es i) = modifier_held (take i es)"
  using assms
proof (induction i)
  case 0
  then show ?case
    by (simp add: hook_before_0 hook_init_def modifier_held_def modifier_edges_def)
next
  case (Suc i)
  then have i: "i < length es"
    and IH: "win_down (hook_before on c es i) = modifier_held (take i es)" by simp_all
  show ?case
    using IH by (simp add: hook_before_Suc [OF i] take_Suc_conv_app_nth [OF i] modifier_held_snoc)
qed

lemma client_unchanged:
  assumes "\<forall>k<length es. \<not> detection on c es k" and "i \<le> length es"
  shows "snd (snd (run_hook on (hook_init, c) (take i es))) = c"
  using assms(2)
proof (induction i)
  case 0
  then show ?case by simp
next
  case (Suc i)
  then have i: "i < length es"
    and IH: "snd (snd (run_hook on (hook_init, c) (take i es))) = c" by simp_all
  obtain s c' where st: "snd (run_hook on (hook_init, c) (take i es)) = (s, c')"
    by (cases "snd (run_hook on (hook_init, c) (take i es))")
  from st IH have c': "c' = c" by simp
  from st have s: "hook_before on c es i = s" by (simp add: hook_before_def)
  from assms(1) i have "\<not> detection on c es i" by simp
  with s have "\<not> (d_down (es ! i) \<and> win_down s)" by (simp add: detection_def)
  then show ?case
    using st c' by (auto simp: state_Suc [OF i] callback_client)
qed

lemma no_detection_passes_all:
  assumes "\<forall>k<length es. \<not> detection on c es k"
  shows "returned on c es = map CallNextHookEx es \<and> client_after on c es = c"
proof
  show "returned on c es = map CallNextHookEx es"
  proof (rule nth_equalityI)
    show "length (returned on c es) = length (map CallNextHookEx es)"
      by (simp add: returned_def run_hook_length)
  next
    fix i assume "i < length (returned on c es)"
    then have i: "i < length es" by (simp add: returned_def run_hook_length)
    have "\<not> suppress_d_up (hook_before on c es i)"
      using assms i by (auto simp: suppress_flag_char)
    moreover have "\<not> (d_down (es ! i) \<and> win_down (hook_before on c es i))"
      using assms i by (simp add: detection_def)
    ultimately show "returned on c es ! i = map CallNextHookEx es ! i"
      using i by (simp add: returned_at)
  qed
next
  show "client_after on c es = c"
    using client_unchanged [OF assms, of "length es"] by (simp add: client_after_def)
qed

lemmas key_consts =
  WM_KEYDOWN_def WM_KEYUP_def WM_SYSKEYDOWN_def WM_SYSKEYUP_def
  VK_LWIN_def VK_RWIN_def VK_D_def VK_E_def

lemmas key_preds =
  processed_def key_down_def key_up_def is_modifier_def
  modifier_down_def modifier_up_def d_down_def d_up_def

lemma win_then_d_hyp:
  "\<forall>i<length win_then_d_keys. d_down (win_then_d_keys ! i) \<longrightarrow> \<not> modifier_held (take i win_then_d_keys)"
  by (simp add: win_then_d_keys_def All_less_Suc key_def key_preds key_consts modifier_held_def modifier_edges_def)

section \<open>Facts about monitors and windows\<close>

lemma point_in_rect_iff: "point_in_rect x y (l, t, r, b) = (l \<le> x \<and> x < r \<and> t \<le> y \<and> y < b)"
  by (auto simp: point_in_rect_def)

lemma monitor_loop_None:
  "(monitor_loop x y n ms = None) = (\<forall>j<length ms. \<not> point_in_rect x y (rect (ms ! j)))"
proof (induction ms arbitrary: n)
  case Nil
  then show ?case by simp
next
  case (Cons m ms)
  show ?case
  proof (cases "point_in_rect x y (rect m)")
    case True
    then show ?thesis by auto
  next
    case False
    then show ?thesis
      using Cons.IH [of "Suc n"] by (auto simp: less_Suc_eq_0_disj)
  qed
qed

lemma monitor_loop_Some:
  "(monitor_loop x y n ms = Some i) =
     (n \<le> i \<and> i - n < length ms \<and> point_in_rect x y (rect (ms ! (i - n)))
      \<and> (\<forall>j<i - n. \<not> point_in_rect x y (rect (ms ! j))))"
proof (induction ms arbitrary: n)
  case Nil
  then show ?case by simp
next
  case (Cons m ms)
  show ?case
  proof (cases "point_in_rect x y (rect m)")
    case True
    then show ?thesis by (cases "i - n") auto
  next
    case False
    have "(monitor_loop x y n (m # ms) = Some i) = (monitor_loop x y (Suc n) ms = Some i)"
      using False by simp
    also have "\<dots> = (Suc n \<le> i \<and> i - Suc n < length ms
        \<and> point_in_rect x y (rect (ms ! (i - Suc n)))
        \<and> (\<forall>j<i - Suc n. \<not> point_in_rect x y (rect (ms ! j))))"
      by (rule Cons.IH)
    also have "\<dots> = (n \<le> i \<and> i - n < length (m # ms)
        \<and> point_in_rect x y (rect ((m # ms) ! (i - n)))
        \<and> (\<forall>j<i - n. \<not> point_in_rect x y (rect ((m # ms) ! j))))"
    proof (cases "i - n")
      case 0
      then show ?thesis using False by auto
    next
      case (Suc k)
      then have "i - Suc n = k" "Suc n \<le> i" "n \<le> i" by simp_all
      then show ?thesis using False Suc by (auto simp: less_Suc_eq_0_disj)
    qed
    finally show ?thesis .
  qed
qed

lemma monitor_loop_0_Some:
  "(monitor_loop x y 0 ms = Some i) =
     (i < length ms \<and> point_in_rect x y (rect (ms ! i))
      \<and> (\<forall>j<i. \<not> point_in_rect x y (rect (ms ! j))))"
  by (simp add: monitor_loop_Some)

lemma cb_eligible:
  "cb w mons idx result h = (if eligible_on w mons idx h then result @ [h] else result)"
  by (auto simp: cb_def is_real_window_def eligible_on_def visible_window_def
      unreserved_class_def no_tool_style_def centre_on_def not_minimized_def Let_def
      split: option.splits bool.splits)

lemma foldl_cb:
  "foldl (cb w mons idx) acc hs = acc @ filter (eligible_on w mons idx) hs"
  by (induction hs arbitrary: acc) (simp_all add: cb_eligible)

lemma enum_windows_filter:
  "enum_windows_on_monitor w mons idx = filter (eligible_on w mons idx) (EnumWindows w)"
  by (simp add: enum_windows_on_monitor_def foldl_cb)

section \<open>Facts about the controller\<close>

lemma desk_enum: "enum_windows_on_monitor desk (get_monitors desk) 0 = [10, 15]"
  by (simp add: get_monitors_def enum_windows_on_monitor_def cb_def is_real_window_def
      get_window_monitor_idx_def point_in_rect_def desk_def WS_EX_TOOLWINDOW_def SW_SHOWMINIMIZED_def)

text \<open>toggle, case by case\<close>

lemma toggle_off:
  "\<not> cursor_on_allowed w c \<Longrightarrow> toggle_desktop_single_monitor w c = (c, [])"
  by (simp add: toggle_desktop_single_monitor_def cursor_on_allowed_def Let_def)

lemma toggle_idle:
  "cursor_on_allowed w c \<Longrightarrow> \<not> toggled c \<Longrightarrow>
   toggle_desktop_single_monitor w c =
     (c\<lparr>minimized := filter (eligible_on w (monitors c) (allowed c)) (EnumWindows w), toggled := True\<rparr>,
      map (\<lambda>h. ShowWindow h SW_MINIMIZE)
        (filter (eligible_on w (monitors c) (allowed c)) (EnumWindows w)))"
  by (auto simp: toggle_desktop_single_monitor_def cursor_on_allowed_def Let_def enum_windows_filter)

lemma toggle_minimized:
  "cursor_on_allowed w c \<Longrightarrow> toggled c \<Longrightarrow>
   toggle_desktop_single_monitor w c =
     (c\<lparr>minimized := [], toggled := False\<rparr>,
      map (\<lambda>h. ShowWindow h SW_RESTORE) (rev (minimized c)))"
  by (auto simp: toggle_desktop_single_monitor_def cursor_on_allowed_def Let_def)

lemma cursor_on_allowed_cong:
  "monitors c' = monitors c \<Longrightarrow> allowed c' = allowed c \<Longrightarrow>
   cursor_on_allowed w c' = cursor_on_allowed w c"
  by (simp add: cursor_on_allowed_def)

lemma set_allowed_state:
  "outcome_state (set_allowed w idx s) =
     \<lparr>ctrl = (ctrl s)\<lparr>allowed := max 0 idx, cfg := (cfg (ctrl s))\<lparr>allowed_monitor := max 0 idx\<rparr>\<rparr>,
      config_path = (case write_text w of
                       Written \<Rightarrow> Json (Some (max 0 idx)) (Some (autostart (cfg (ctrl s))))
                     | Not_opened \<Rightarrow> config_path s
                     | Cut_short \<Rightarrow> Unreadable)\<rparr>"
  by (simp add: set_allowed_def save_config_def Let_def split: write_end.splits)

lemma step_phase:
  "toggled (ctrl (outcome_state (set_allowed w idx s))) = toggled (ctrl s)"
  "minimized (ctrl (outcome_state (set_allowed w idx s))) = minimized (ctrl s)"
  "toggled (ctrl (refresh_monitors w s)) = toggled (ctrl s)"
  "minimized (ctrl (refresh_monitors w s)) = minimized (ctrl s)"
  by (simp_all add: set_allowed_state refresh_monitors_def)

lemma filter_members: "filter (\<lambda>h. h \<in> set xs \<and> P h) xs = filter P xs"
  by (rule filter_cong) auto

text \<open>the invariant of the toggle state, with the most recent transition\<close>

lemma step_inv:
  fixes x :: "os \<times> op" and s :: sys and g :: "(os \<times> os_call list) option"
  assumes idle: "\<not> toggled (ctrl s) \<longrightarrow> minimized (ctrl s) = []"
    and mini: "toggled (ctrl s) \<longrightarrow>
      (\<exists>w. g = Some (w, map (\<lambda>h. ShowWindow h SW_MINIMIZE) (minimized (ctrl s)))
        \<and> minimized (ctrl s) = filter (\<lambda>h. h \<in> set (minimized (ctrl s))) (EnumWindows w))"
  defines "s' \<equiv> fst (step x s)"
  defines "g' \<equiv> (if \<not> toggled (ctrl s) \<and> toggled (ctrl s') then Some (fst x, snd (step x s)) else g)"
  shows "(\<not> toggled (ctrl s') \<longrightarrow> minimized (ctrl s') = [])
    \<and> (toggled (ctrl s') \<longrightarrow>
      (\<exists>w. g' = Some (w, map (\<lambda>h. ShowWindow h SW_MINIMIZE) (minimized (ctrl s')))
        \<and> minimized (ctrl s') = filter (\<lambda>h. h \<in> set (minimized (ctrl s'))) (EnumWindows w)))"
proof -
  obtain w o' where x: "x = (w, o')" by (cases x)
  show ?thesis
  proof (cases o')
    case Trigger
    show ?thesis
    proof (cases "cursor_on_allowed w (ctrl s)")
      case False
      then show ?thesis
        using idle mini by (simp add: s'_def g'_def x Trigger toggle_off)
    next
      case on: True
      show ?thesis
      proof (cases "toggled (ctrl s)")
        case True
        then show ?thesis
          using on by (simp add: s'_def g'_def x Trigger toggle_minimized)
      next
        case False
        then show ?thesis
          using on by (simp add: s'_def g'_def x Trigger toggle_idle filter_members)
      qed
    qed
  next
    case (SetAllowed idx)
    then show ?thesis
      using idle mini by (simp add: s'_def g'_def x step_phase)
  next
    case RefreshMonitors
    then show ?thesis
      using idle mini by (simp add: s'_def g'_def x step_phase)
  qed
qed

lemma run_ops_inv:
  assumes "\<not> toggled (ctrl s) \<longrightarrow> minimized (ctrl s) = []"
    and "toggled (ctrl s) \<longrightarrow>
      (\<exists>w. g = Some (w, map (\<lambda>h. ShowWindow h SW_MINIMIZE) (minimized (ctrl s)))
        \<and> minimized (ctrl s) = filter (\<lambda>h. h \<in> set (minimized (ctrl s))) (EnumWindows w))"
  shows "(\<not> toggled (ctrl (run_ops ops s)) \<longrightarrow> minimized (ctrl (run_ops ops s)) = [])
    \<and> (toggled (ctrl (run_ops ops s)) \<longrightarrow>
      (\<exists>w. last_transition ops s g
             = Some (w, map (\<lambda>h. ShowWindow h SW_MINIMIZE) (minimized (ctrl (run_ops ops s))))
        \<and> minimized (ctrl (run_ops ops s))
             = filter (\<lambda>h. h \<in> set (minimized (ctrl (run_ops ops s)))) (EnumWindows w)))"
  using assms
proof (induction ops arbitrary: s g)
  case Nil
  then show ?case by simp
next
  case (Cons x xs)
  from step_inv [OF Cons.prems, of x]
  have "(\<not> toggled (ctrl (fst (step x s))) \<longrightarrow> minimized (ctrl (fst (step x s))) = [])"
    and "toggled (ctrl (fst (step x s))) \<longrightarrow>
      (\<exists>w. (if \<not> toggled (ctrl s) \<and> toggled (ctrl (fst (step x s)))
             then Some (fst x, snd (step x s)) else g)
            = Some (w, map (\<lambda>h. ShowWindow h SW_MINIMIZE) (minimized (ctrl (fst (step x s)))))
        \<and> minimized (ctrl (fst (step x s)))
            = filter (\<lambda>h. h \<in> set (minimized (ctrl (fst (step x s))))) (EnumWindows w))"
    by blast+
  from Cons.IH [OF this] show ?case by simp
qed

lemma init_idle:
  "\<not> toggled (ctrl (Controller_init f w))" "minimized (ctrl (Controller_init f w)) = []"
  by (simp_all add: Controller_init_def Let_def)

lemma reachable_idle_empty:
  "\<not> toggled (ctrl (run_ops ops (Controller_init f w))) \<Longrightarrow>
   minimized (ctrl (run_ops ops (Controller_init f w))) = []"
  using run_ops_inv [of "Controller_init f w" None ops] by (simp add: init_idle)

lemma desk_cursors:
  "get_cursor_monitor_idx desk (get_monitors desk) = Some 0"
  "get_cursor_monitor_idx desk_right (get_monitors desk) = Some 1"
  "get_cursor_monitor_idx desk_edge (get_monitors desk) = Some 1"
  "get_cursor_monitor_idx desk_outside (get_monitors desk) = None"
  by (simp_all add: get_monitors_def get_cursor_monitor_idx_def point_in_rect_def
      desk_def desk_right_def desk_edge_def desk_outside_def)

lemma ctrl0_fields:
  "cfg ctrl0 = \<lparr>allowed_monitor = 0, autostart = False\<rparr>"
  "monitors ctrl0 = get_monitors desk" "allowed ctrl0 = 0" "\<not> toggled ctrl0" "minimized ctrl0 = []"
  by (simp_all add: ctrl0_def Controller_init_def load_config_def)

lemma ctrl0_on: "cursor_on_allowed desk ctrl0" "\<not> cursor_on_allowed desk_right ctrl0"
  by (simp_all add: cursor_on_allowed_def ctrl0_fields desk_cursors)

lemma ctrl0_reach: "ctrl0 = ctrl (run_ops [(desk_right, Trigger)] (Controller_init NoFile desk))"
  using toggle_off [OF ctrl0_on(2)] by (simp add: ctrl0_def)

lemma ctrl0_wins: "filter (eligible_on desk (monitors ctrl0) (allowed ctrl0)) (EnumWindows desk) = [10, 15]"
  using desk_enum by (simp add: enum_windows_filter ctrl0_fields)

lemma ctrl1_eq: "ctrl1 = ctrl0\<lparr>minimized := [10, 15], toggled := True\<rparr>"
  using toggle_idle [OF ctrl0_on(1) ctrl0_fields(4)] by (simp add: ctrl1_def ctrl0_wins)

lemma ctrl1_off:
  "map_option int (get_cursor_monitor_idx desk_right (monitors ctrl1)) \<noteq> Some (allowed ctrl1)"
  "map_option int (get_cursor_monitor_idx desk_outside (monitors ctrl0)) \<noteq> Some (allowed ctrl0)"
  by (simp_all add: ctrl1_eq ctrl0_fields desk_cursors)

lemma desk_edge_pos: "GetCursorPos desk_edge = (1920, 500)"
  by (simp add: desk_edge_def desk_def)

lemma desk_two: "length (get_monitors desk) = 2" "rect (get_monitors desk ! 0) = (0, 0, 1920, 1080)"
  by (simp_all add: get_monitors_def desk_def)

lemma desk_13: "already_minimized desk 13"
  by (simp add: already_minimized_def desk_def SW_SHOWMINIMIZED_def)

lemma ctrl0_rec:
  "ctrl0 = \<lparr>cfg = \<lparr>allowed_monitor = 0, autostart = False\<rparr>, monitors = get_monitors desk,
            allowed = 0, toggled = False, minimized = []\<rparr>"
  by (simp add: ctrl0_def Controller_init_def load_config_def)

lemma ctrl1_rec:
  "ctrl1 = \<lparr>cfg = \<lparr>allowed_monitor = 0, autostart = False\<rparr>, monitors = get_monitors desk,
            allowed = 0, toggled = True, minimized = [10, 15]\<rparr>"
  by (simp add: ctrl1_eq ctrl0_rec)

lemma ctrl1_fields:
  "toggled ctrl1" "minimized ctrl1 = [10, 15]" "allowed ctrl1 = 0"
  "monitors ctrl1 = get_monitors desk"
  by (simp_all add: ctrl1_rec)

lemma init_desk: "Controller_init NoFile desk = \<lparr>ctrl = ctrl0, config_path = NoFile\<rparr>"
  by (simp add: ctrl0_def Controller_init_def Let_def)

lemma toggle_desk_ctrl0:
  "toggle_desktop_single_monitor desk ctrl0
     = (ctrl1, [ShowWindow 10 SW_MINIMIZE, ShowWindow 15 SW_MINIMIZE])"
  using toggle_idle [OF ctrl0_on(1) ctrl0_fields(4)] by (simp add: ctrl0_wins ctrl1_eq)

lemma session_steps:
  "step (desk, Trigger) \<lparr>ctrl = ctrl0, config_path = NoFile\<rparr>
     = (\<lparr>ctrl = ctrl1, config_path = NoFile\<rparr>,
        [ShowWindow 10 SW_MINIMIZE, ShowWindow 15 SW_MINIMIZE])"
  "step (desk_right, SetAllowed 1) \<lparr>ctrl = ctrl1, config_path = NoFile\<rparr>
     = (\<lparr>ctrl = ctrl1\<lparr>allowed := 1, cfg := \<lparr>allowed_monitor = 1, autostart = False\<rparr>\<rparr>,
         config_path = Json (Some 1) (Some False)\<rparr>, [])"
  "step (desk, RefreshMonitors)
       \<lparr>ctrl = ctrl1\<lparr>allowed := 1, cfg := \<lparr>allowed_monitor = 1, autostart = False\<rparr>\<rparr>,
          config_path = Json (Some 1) (Some False)\<rparr>
     = (\<lparr>ctrl = ctrl1\<lparr>allowed := 1, cfg := \<lparr>allowed_monitor = 1, autostart = False\<rparr>\<rparr>,
         config_path = Json (Some 1) (Some False)\<rparr>, [])"
proof -
  have "write_text desk_right = Written" by (simp add: desk_right_def desk_def)
  then show
    "step (desk_right, SetAllowed 1) \<lparr>ctrl = ctrl1, config_path = NoFile\<rparr>
     = (\<lparr>ctrl = ctrl1\<lparr>allowed := 1, cfg := \<lparr>allowed_monitor = 1, autostart = False\<rparr>\<rparr>,
         config_path = Json (Some 1) (Some False)\<rparr>, [])"
    by (simp add: set_allowed_state ctrl1_rec)
qed (simp_all add: toggle_desk_ctrl0 refresh_monitors_def ctrl1_rec)

lemma session_run:
  "run_ops session (Controller_init NoFile desk)
     = \<lparr>ctrl = ctrl1\<lparr>allowed := 1, cfg := \<lparr>allowed_monitor = 1, autostart = False\<rparr>\<rparr>,
        config_path = Json (Some 1) (Some False)\<rparr>"
  by (simp add: session_def init_desk session_steps del: step.simps)

lemma session_fields:
  "toggled (ctrl (run_ops session (Controller_init NoFile desk)))"
  "minimized (ctrl (run_ops session (Controller_init NoFile desk))) = [10, 15]"
  "allowed (ctrl (run_ops session (Controller_init NoFile desk))) = 1"
  "monitors (ctrl (run_ops session (Controller_init NoFile desk))) = get_monitors desk"
  by (simp_all add: session_run ctrl1_rec)

lemma session_last:
  "last_transition session (Controller_init NoFile desk) None
     = Some (desk, [ShowWindow 10 SW_MINIMIZE, ShowWindow 15 SW_MINIMIZE])"
  by (simp add: session_def init_desk session_steps ctrl0_fields ctrl1_fields del: step.simps)

lemma run_ops_append: "run_ops (xs @ ys) s = run_ops ys (run_ops xs s)"
  by (induction xs arbitrary: s) simp_all

lemma session_restored_idle:
  "\<not> toggled (ctrl (run_ops session_restored (Controller_init NoFile desk)))"
proof -
  have "cursor_on_allowed desk_right (ctrl (run_ops session (Controller_init NoFile desk)))"
    by (simp add: cursor_on_allowed_def session_fields desk_cursors)
  from toggle_minimized [OF this session_fields(1)] show ?thesis
    by (simp add: session_restored_def run_ops_append)
qed

lemma set_allowed_stmts_run:
  "exec_stmts w (run_start s) (set_allowed_stmts idx) =
     \<lparr>now = outcome_state (set_allowed w idx s), lock_held = False,
      raised = (write_text w \<noteq> Written), waiting = False, unguarded = []\<rparr>"
  by (cases "write_text w")
    (simp_all add: exec_stmts_def run_start_def set_allowed_stmts_def set_allowed_def
      save_config_def Let_def)

lemma set_allowed_stmts_wait:
  "exec_stmts w (exec_stmts w (run_start s) (butlast toggle_locked_stmts)) (set_allowed_stmts idx) =
     \<lparr>now = s, lock_held = True, raised = False, waiting = True, unguarded = []\<rparr>"
  by (simp add: exec_stmts_def run_start_def set_allowed_stmts_def toggle_locked_stmts_def)

lemma other_blocks_run:
  "exec_stmts w (run_start s) refresh_monitors_stmts = run_start (refresh_monitors w s)"
  "exec_stmts w (run_start s) toggle_locked_stmts = run_start s"
  by (simp_all add: exec_stmts_def run_start_def refresh_monitors_stmts_def
      toggle_locked_stmts_def refresh_monitors_def)

lemma desk_writes:
  "write_text desk = Written" "write_text (desk\<lparr>write_text := Cut_short\<rparr>) \<noteq> Written"
  by (simp_all add: desk_def)

lemma step_allowed:
  "allowed (ctrl (fst (step x s))) =
     (case snd x of SetAllowed idx \<Rightarrow> max 0 idx | _ \<Rightarrow> allowed (ctrl s))"
proof -
  obtain w o' where x: "x = (w, o')" by (cases x)
  show ?thesis
  proof (cases o')
    case Trigger
    then show ?thesis
      by (simp add: x toggle_desktop_single_monitor_def Let_def split: prod.splits)
  next
    case (SetAllowed idx)
    then show ?thesis by (simp add: x set_allowed_state)
  next
    case RefreshMonitors
    then show ?thesis by (simp add: x refresh_monitors_def)
  qed
qed

lemma step_nonneg:
  "0 \<le> allowed (ctrl s) \<or> is_set_allowed (snd x) \<Longrightarrow> 0 \<le> allowed (ctrl (fst (step x s)))"
  by (cases "snd x") (auto simp: step_allowed)

lemma run_ops_nonneg:
  "0 \<le> allowed (ctrl s) \<or> (\<exists>x\<in>set ops. is_set_allowed (snd x)) \<Longrightarrow>
   0 \<le> allowed (ctrl (run_ops ops s))"
proof (induction ops arbitrary: s)
  case Nil
  then show ?case by simp
next
  case (Cons x xs)
  show ?case
  proof (cases "0 \<le> allowed (ctrl s) \<or> is_set_allowed (snd x)")
    case True
    then have "0 \<le> allowed (ctrl (fst (step x s)))" by (rule step_nonneg)
    then show ?thesis using Cons.IH [of "fst (step x s)"] by simp
  next
    case False
    with Cons.prems have "\<exists>y\<in>set xs. is_set_allowed (snd y)" by auto
    then show ?thesis using Cons.IH [of "fst (step x s)"] by simp
  qed
qed

lemma set_allowed_clamps_at_zero:
  "allowed (ctrl (outcome_state (set_allowed w idx s))) = max 0 idx
   \<and> 0 \<le> allowed (ctrl (outcome_state (set_allowed w idx s)))
   \<and> (0 \<le> allowed_monitor (load_config f) \<or> (\<exists>x\<in>set ops. is_set_allowed (snd x))
        \<longrightarrow> 0 \<le> allowed (ctrl (run_ops ops (Controller_init f w0))))"
proof -
  have "allowed (ctrl (Controller_init f w0)) = allowed_monitor (load_config f)"
    by (simp add: Controller_init_def Let_def)
  then show ?thesis
    using run_ops_nonneg [of "Controller_init f w0" ops] by (simp add: set_allowed_state)
qed

lemma negative_init:
  "Controller_init negative_file desk =
     \<lparr>ctrl = \<lparr>cfg = \<lparr>allowed_monitor = - 1, autostart = False\<rparr>, monitors = get_monitors desk,
              allowed = - 1, toggled = False, minimized = []\<rparr>,
      config_path = negative_file\<rparr>"
  by (simp add: Controller_init_def load_config_def negative_file_def Let_def)

lemma win_e_d_len: "length win_e_d_keys = 6"
  by (simp add: win_e_d_keys_def)

lemma win_e_d_nth:
  "win_e_d_keys ! 0 = key WM_KEYDOWN VK_LWIN" "win_e_d_keys ! Suc 0 = key WM_KEYDOWN VK_E"
  "win_e_d_keys ! 2 = key WM_KEYDOWN VK_D" "win_e_d_keys ! 3 = key WM_KEYUP VK_E"
  "win_e_d_keys ! 4 = key WM_KEYUP VK_D"
  by (simp_all add: win_e_d_keys_def)

lemma win_e_d_kinds:
  "is_modifier (key WM_KEYDOWN VK_LWIN)" "\<not> is_modifier (key WM_KEYDOWN VK_E)"
  "d_down (key WM_KEYDOWN VK_D)" "\<not> d_down (key WM_KEYDOWN VK_E)"
  "\<not> d_up (key WM_KEYDOWN VK_E)" "\<not> d_up (key WM_KEYUP VK_E)" "d_up (key WM_KEYUP VK_D)"
  by (simp_all add: key_def key_preds key_consts)

lemma win_e_d_held:
  "win_down (hook_before count_call 0 win_e_d_keys (Suc 0))"
  "win_down (hook_before count_call 0 win_e_d_keys 2)"
  by (simp_all add: hook_before_def win_e_d_keys_def key_def callback_def hook_init_def
      count_call_def key_consts numeral_2_eq_2)

lemma win_e_d_detection: "detection count_call 0 win_e_d_keys 2"
  by (simp add: detection_def win_e_d_nth win_e_d_kinds win_e_d_held)

lemma win_e_d_release: "paired_release count_call 0 win_e_d_keys 4"
proof -
  have "\<forall>m. 2 < m \<and> m < 4 \<longrightarrow> \<not> d_up (win_e_d_keys ! m)"
  proof (intro allI impI)
    fix m :: nat assume "2 < m \<and> m < 4"
    then have "m = 3" by simp
    then show "\<not> d_up (win_e_d_keys ! m)" by (simp add: win_e_d_nth win_e_d_kinds)
  qed
  with win_e_d_detection
  have "\<exists>k<4. detection count_call 0 win_e_d_keys k
      \<and> (\<forall>m. k < m \<and> m < 4 \<longrightarrow> \<not> d_up (win_e_d_keys ! m))"
    by (intro exI [of _ 2]) simp
  then show ?thesis
    by (simp add: paired_release_def win_e_d_nth win_e_d_kinds)
qed

lemma win_e_d_other:
  "\<not> is_modifier (win_e_d_keys ! 1)" "\<not> detection count_call 0 win_e_d_keys 1"
  "\<not> paired_release count_call 0 win_e_d_keys 1"
  by (simp_all add: detection_def paired_release_def win_e_d_nth win_e_d_kinds)

section \<open>The claims\<close>

subsection \<open>The callback suppresses exactly the D pair\<close>

text \<open>
  Claim C1. Run the callback over any sequence of calls, from the hook's initial state
  and with any client. The flag \<open>win_down\<close> before event \<open>i\<close> says whether the last
  modifier edge among the earlier events was a press. For event \<open>i\<close>:
  a Win key event (either Win key, whatever the message) is handed on to
  CallNextHookEx with its own arguments; a D-down that arrives while the modifier is
  tracked as held is swallowed; the first D-up after such a detection is swallowed; and
  every other event, a key pressed while the modifier is held included, is handed on to
  CallNextHookEx with its own arguments. A key event here is a call the callback
  processes (nCode \<open>\<ge> 0\<close>); a call with a negative nCode is among the "other" events and
  is handed on as well.
\<close>

theorem callback_suppresses_exactly_the_pair:
  assumes "i < length es"
  shows "win_down (hook_before on_win_d c es i) = modifier_held (take i es)
       \<and> (is_modifier (es ! i) \<longrightarrow> returned on_win_d c es ! i = CallNextHookEx (es ! i))
       \<and> (detection on_win_d c es i \<longrightarrow> returned on_win_d c es ! i = Swallowed)
       \<and> (paired_release on_win_d c es i \<longrightarrow> returned on_win_d c es ! i = Swallowed)
       \<and> (\<not> is_modifier (es ! i) \<and> \<not> detection on_win_d c es i \<and> \<not> paired_release on_win_d c es i
            \<longrightarrow> returned on_win_d c es ! i = CallNextHookEx (es ! i))"
proof -
  have flag: "(d_up (es ! i) \<and> suppress_d_up (hook_before on_win_d c es i))
      = paired_release on_win_d c es i"
    using assms suppress_flag_char [of i es on_win_d c] by (simp add: paired_release_def)
  have det: "(d_down (es ! i) \<and> win_down (hook_before on_win_d c es i)) = detection on_win_d c es i"
    by (simp add: detection_def)
  have ret: "returned on_win_d c es ! i =
      (if detection on_win_d c es i \<or> paired_release on_win_d c es i then Swallowed
       else CallNextHookEx (es ! i))"
    using returned_at [OF assms, of on_win_d c] by (simp only: flag det)
  have m: "is_modifier (es ! i) \<Longrightarrow> \<not> detection on_win_d c es i \<and> \<not> paired_release on_win_d c es i"
    using d_not_modifier [of "es ! i"] by (auto simp: detection_def paired_release_def)
  have held: "win_down (hook_before on_win_d c es i) = modifier_held (take i es)"
    using assms by (simp add: win_down_char)
  show ?thesis using ret m held by auto
qed

text \<open>
  C1 at the sequence Win down, E down, D down, E up, D up, Win up: the Win key and the
  E key pressed while Win is held are handed on, D down and D up are swallowed.
\<close>

theorem callback_suppresses_exactly_the_pair_witness:
  "is_modifier (win_e_d_keys ! 0)
   \<and> returned count_call 0 win_e_d_keys ! 0 = CallNextHookEx (key WM_KEYDOWN VK_LWIN)
   \<and> win_down (hook_before count_call 0 win_e_d_keys 1)
   \<and> returned count_call 0 win_e_d_keys ! 1 = CallNextHookEx (key WM_KEYDOWN VK_E)
   \<and> detection count_call 0 win_e_d_keys 2
   \<and> returned count_call 0 win_e_d_keys ! 2 = Swallowed
   \<and> paired_release count_call 0 win_e_d_keys 4
   \<and> returned count_call 0 win_e_d_keys ! 4 = Swallowed"
proof -
  have "returned count_call 0 win_e_d_keys ! 0 = CallNextHookEx (key WM_KEYDOWN VK_LWIN)"
    using callback_suppresses_exactly_the_pair [of 0 win_e_d_keys count_call 0]
    by (simp add: win_e_d_len win_e_d_nth win_e_d_kinds)
  moreover have "returned count_call 0 win_e_d_keys ! 1 = CallNextHookEx (key WM_KEYDOWN VK_E)"
    using callback_suppresses_exactly_the_pair [of 1 win_e_d_keys count_call 0] win_e_d_other
    by (simp add: win_e_d_len win_e_d_nth)
  moreover have "returned count_call 0 win_e_d_keys ! 2 = Swallowed"
    using callback_suppresses_exactly_the_pair [of 2 win_e_d_keys count_call 0] win_e_d_detection
    by (simp add: win_e_d_len)
  moreover have "returned count_call 0 win_e_d_keys ! 4 = Swallowed"
    using callback_suppresses_exactly_the_pair [of 4 win_e_d_keys count_call 0] win_e_d_release
    by (simp add: win_e_d_len)
  ultimately show ?thesis
    using win_e_d_detection win_e_d_release win_e_d_held
    by (simp add: win_e_d_nth win_e_d_kinds)
qed

subsection \<open>Two triggers in a row\<close>

text \<open>
  Claim C2. Let \<open>c\<close> be a controller state that some sequence of operations reaches
  from initialization, in phase Idle, and let the cursor be on the allowed monitor at
  both calls. The first call stores the eligible windows of the allowed monitor, in
  enumeration order, as the minimized set, asks Windows to minimize them in that order
  and sets the phase to Minimized; the second call asks Windows to restore exactly
  these windows in the reverse order and returns the controller to \<open>c\<close>: the minimized
  set is empty and the phase is Idle. The second call does not look at the windows, so
  the property holds whatever they are by then.
\<close>

theorem trigger_twice_round_trip:
  assumes "c = ctrl (run_ops ops (Controller_init f w0))"
    and "\<not> toggled c"
    and "cursor_on_allowed w1 c"
    and "cursor_on_allowed w2 c"
  shows "toggle_desktop_single_monitor w1 c =
           (c\<lparr>minimized := filter (eligible_on w1 (monitors c) (allowed c)) (EnumWindows w1),
              toggled := True\<rparr>,
            map (\<lambda>h. ShowWindow h SW_MINIMIZE)
              (filter (eligible_on w1 (monitors c) (allowed c)) (EnumWindows w1)))
       \<and> toggle_desktop_single_monitor w2 (fst (toggle_desktop_single_monitor w1 c)) =
           (c, map (\<lambda>h. ShowWindow h SW_RESTORE)
                 (rev (filter (eligible_on w1 (monitors c) (allowed c)) (EnumWindows w1))))
       \<and> minimized (fst (toggle_desktop_single_monitor w2 (fst (toggle_desktop_single_monitor w1 c)))) = []
       \<and> \<not> toggled (fst (toggle_desktop_single_monitor w2 (fst (toggle_desktop_single_monitor w1 c))))"
proof -
  let ?wins = "filter (eligible_on w1 (monitors c) (allowed c)) (EnumWindows w1)"
  let ?c1 = "c\<lparr>minimized := ?wins, toggled := True\<rparr>"
  have empty: "minimized c = []"
    using assms(1,2) reachable_idle_empty by simp
  have first: "toggle_desktop_single_monitor w1 c = (?c1, map (\<lambda>h. ShowWindow h SW_MINIMIZE) ?wins)"
    using assms(2,3) by (rule toggle_idle [rotated])
  have on2: "cursor_on_allowed w2 ?c1"
    using assms(4) by (simp add: cursor_on_allowed_def)
  have restored: "?c1\<lparr>minimized := [], toggled := False\<rparr> = c"
    using empty assms(2) by simp
  have second: "toggle_desktop_single_monitor w2 ?c1 = (c, map (\<lambda>h. ShowWindow h SW_RESTORE) (rev ?wins))"
    using toggle_minimized [OF on2] restored by simp
  show ?thesis
    using first second empty assms(2) by simp
qed

text \<open>
  C2 on the concrete desktop: windows 10 and 15 are minimized, then 15 and 10 are
  restored.
\<close>

theorem trigger_twice_round_trip_witness:
  "toggle_desktop_single_monitor desk ctrl0 =
     (ctrl0\<lparr>minimized := [10, 15], toggled := True\<rparr>,
      [ShowWindow 10 SW_MINIMIZE, ShowWindow 15 SW_MINIMIZE])
   \<and> toggle_desktop_single_monitor desk (fst (toggle_desktop_single_monitor desk ctrl0)) =
     (ctrl0, [ShowWindow 15 SW_RESTORE, ShowWindow 10 SW_RESTORE])"
proof -
  note round_trip = trigger_twice_round_trip [OF ctrl0_reach ctrl0_fields(4) ctrl0_on(1) ctrl0_on(1)]
  from round_trip have "toggle_desktop_single_monitor desk ctrl0 =
     (ctrl0\<lparr>minimized := [10, 15], toggled := True\<rparr>,
      [ShowWindow 10 SW_MINIMIZE, ShowWindow 15 SW_MINIMIZE])"
    by (simp add: ctrl0_wins)
  moreover from round_trip [THEN conjunct2, THEN conjunct1]
  have "toggle_desktop_single_monitor desk (fst (toggle_desktop_single_monitor desk ctrl0)) =
     (ctrl0, [ShowWindow 15 SW_RESTORE, ShowWindow 10 SW_RESTORE])"
    by (simp only: ctrl0_wins list.map rev.simps append.simps)
  ultimately show ?thesis by (rule conjI)
qed

subsection \<open>Sequences that never trigger\<close>

text \<open>
  Claim C3, as amended. The claim speaks of sequences without a modifier-down
  immediately followed by a D-down; what the callback looks at is whether the modifier
  is held when the D-down arrives, however many events lie in between. If no D-down of
  the sequence arrives while the modifier is held (the last modifier edge before it, if
  there is one, is a release), then the callback hands every event on, the client's
  state is what it was, and the client was called zero times.
\<close>

theorem no_d_down_while_held_no_trigger:
  assumes "\<forall>i<length es. d_down (es ! i) \<longrightarrow> \<not> modifier_held (take i es)"
  shows "returned on_win_d c es = map CallNextHookEx es
       \<and> client_after on_win_d c es = c
       \<and> trigger_count es = 0"
proof -
  have nd: "\<forall>k<length es. \<not> detection on c' es k" for on :: "'b \<Rightarrow> 'b outcome" and c'
    using assms by (simp add: detection_def win_down_char)
  have "returned on_win_d c es = map CallNextHookEx es \<and> client_after on_win_d c es = c"
    by (rule no_detection_passes_all [OF nd])
  moreover have "client_after count_call 0 es = 0"
    using no_detection_passes_all [OF nd, of count_call 0] by simp
  ultimately show ?thesis
    by (simp add: trigger_count_def)
qed

text \<open>
  C3 at the sequence Win down, Win up, D down, D up: D is pressed after Win was
  released.
\<close>

theorem no_d_down_while_held_no_trigger_witness:
  "d_down (win_then_d_keys ! 2)
   \<and> \<not> modifier_held (take 2 win_then_d_keys)
   \<and> returned count_call 0 win_then_d_keys = map CallNextHookEx win_then_d_keys
   \<and> client_after count_call 0 win_then_d_keys = 0
   \<and> trigger_count win_then_d_keys = 0"
proof -
  have "d_down (win_then_d_keys ! 2)" "\<not> modifier_held (take 2 win_then_d_keys)"
    by (simp_all add: win_then_d_keys_def key_def key_preds key_consts modifier_held_def
        modifier_edges_def numeral_2_eq_2)
  then show ?thesis
    using no_d_down_while_held_no_trigger [OF win_then_d_hyp, of count_call 0] by simp
qed

text \<open>
  C3 as stated fails at Win down, E down, D down: no modifier-down is immediately
  followed by a D-down, yet the D-down is swallowed and the client is called once.
\<close>

theorem adjacent_combo_counterexample:
  "\<not> adjacent_combo (take 3 win_e_d_keys)
   \<and> returned count_call 0 (take 3 win_e_d_keys)
       = [CallNextHookEx (key WM_KEYDOWN VK_LWIN), CallNextHookEx (key WM_KEYDOWN VK_E), Swallowed]
   \<and> trigger_count (take 3 win_e_d_keys) = 1"
  by (simp add: win_e_d_keys_def key_def key_preds key_consts returned_def trigger_count_def
      client_after_def callback_def hook_init_def count_call_def numeral_3_eq_3)

subsection \<open>A trigger away from the allowed monitor\<close>

text \<open>
  Claim C4. If the monitor under the cursor, "none" included, is not the allowed
  monitor, the call returns the controller as it was (phase and minimized set
  unchanged) and asks nothing of Windows.
\<close>

theorem trigger_off_monitor_is_noop:
  assumes "map_option int (get_cursor_monitor_idx w (monitors c)) \<noteq> Some (allowed c)"
  shows "toggle_desktop_single_monitor w c = (c, [])
       \<and> toggled (fst (toggle_desktop_single_monitor w c)) = toggled c
       \<and> minimized (fst (toggle_desktop_single_monitor w c)) = minimized c
       \<and> snd (toggle_desktop_single_monitor w c) = []"
  using assms by (simp add: toggle_desktop_single_monitor_def Let_def)

text \<open>
  C4 with the cursor on the right monitor while windows are minimized on the left one,
  and with the cursor outside both monitors.
\<close>

theorem trigger_off_monitor_is_noop_witness:
  "get_cursor_monitor_idx desk_right (monitors ctrl1) = Some 1
   \<and> allowed ctrl1 = 0 \<and> toggled ctrl1 \<and> minimized ctrl1 = [10, 15]
   \<and> toggle_desktop_single_monitor desk_right ctrl1 = (ctrl1, [])
   \<and> get_cursor_monitor_idx desk_outside (monitors ctrl0) = None
   \<and> toggle_desktop_single_monitor desk_outside ctrl0 = (ctrl0, [])"
  using trigger_off_monitor_is_noop [OF ctrl1_off(1)] trigger_off_monitor_is_noop [OF ctrl1_off(2)]
  by (simp add: ctrl1_eq ctrl0_fields desk_cursors)

subsection \<open>The monitor at a point\<close>

text \<open>
  Claim C5. A point is in a rectangle under half-open bounds. The lookup for the
  cursor's point \<open>(x, y)\<close> returns index \<open>i\<close> exactly when monitor \<open>i\<close> is the first of
  the list that contains the point, and None exactly when no monitor contains it; so a
  point on the right or the bottom edge of a monitor is never attributed to that
  monitor. The lookup for a window is the same lookup at the centre of the window's
  rectangle (None when the rectangle cannot be read).
\<close>

theorem monitor_lookup_first_half_open_match:
  assumes "GetCursorPos w = (x, y)"
  shows "point_in_rect x y (l, t, r, b) = (l \<le> x \<and> x < r \<and> t \<le> y \<and> y < b)
       \<and> (get_cursor_monitor_idx w ms = Some i) =
           (i < length ms \<and> point_in_rect x y (rect (ms ! i))
            \<and> (\<forall>j<i. \<not> point_in_rect x y (rect (ms ! j))))
       \<and> (get_cursor_monitor_idx w ms = None) =
           (\<forall>j<length ms. \<not> point_in_rect x y (rect (ms ! j)))
       \<and> (k < length ms \<and> rect (ms ! k) = (l, t, r, b) \<and> (x = r \<or> y = b)
            \<longrightarrow> get_cursor_monitor_idx w ms \<noteq> Some k)
       \<and> get_window_monitor_idx w ms h =
           (case GetWindowRect w h of
              None \<Rightarrow> None
            | Some (wl, wt, wr, wb) \<Rightarrow>
                get_cursor_monitor_idx (w\<lparr>GetCursorPos := ((wl + wr) div 2, (wt + wb) div 2)\<rparr>) ms)"
proof -
  have cur: "get_cursor_monitor_idx w ms = monitor_loop x y 0 ms"
    using assms by (simp add: get_cursor_monitor_idx_def)
  have edge: "k < length ms \<and> rect (ms ! k) = (l, t, r, b) \<and> (x = r \<or> y = b)
      \<longrightarrow> monitor_loop x y 0 ms \<noteq> Some k"
    by (auto simp: monitor_loop_0_Some point_in_rect_iff)
  have win: "get_window_monitor_idx w ms h =
      (case GetWindowRect w h of
         None \<Rightarrow> None
       | Some (wl, wt, wr, wb) \<Rightarrow>
           get_cursor_monitor_idx (w\<lparr>GetCursorPos := ((wl + wr) div 2, (wt + wb) div 2)\<rparr>) ms)"
    by (simp add: get_window_monitor_idx_def get_cursor_monitor_idx_def Let_def
        split: option.splits prod.splits)
  show ?thesis
    unfolding cur using edge win
    by (simp only: point_in_rect_iff monitor_loop_0_Some monitor_loop_None simp_thms)
qed

text \<open>
  C5 with the cursor at x = 1920, the right edge of the left monitor and the left edge
  of the right one: the point belongs to the right monitor only.
\<close>

theorem monitor_lookup_first_half_open_match_witness:
  "GetCursorPos desk_edge = (1920, 500)
   \<and> rect (get_monitors desk ! 0) = (0, 0, 1920, 1080)
   \<and> get_cursor_monitor_idx desk_edge (get_monitors desk) \<noteq> Some 0
   \<and> get_cursor_monitor_idx desk_edge (get_monitors desk) = Some 1
   \<and> point_in_rect 1920 500 (rect (get_monitors desk ! 1))
   \<and> \<not> point_in_rect 1920 500 (0, 0, 1920, 1080)"
proof -
  note lookup = monitor_lookup_first_half_open_match
    [OF desk_edge_pos, of 0 0 1920 1080 "get_monitors desk" 1 0]
  have k: "(0::nat) < length (get_monitors desk) \<and> rect (get_monitors desk ! 0) = (0, 0, 1920, 1080)
      \<and> ((1920::int) = 1920 \<or> (500::int) = 1080)"
    by (simp add: desk_two)
  from lookup k have "get_cursor_monitor_idx desk_edge (get_monitors desk) \<noteq> Some 0"
    by blast
  moreover from lookup have "\<not> point_in_rect 1920 500 (0, 0, 1920, 1080)"
    by simp
  moreover have "get_cursor_monitor_idx desk_edge (get_monitors desk) = Some 1"
    by (simp add: desk_cursors)
  moreover from lookup this have "point_in_rect 1920 500 (rect (get_monitors desk ! 1))"
    by simp
  ultimately show ?thesis
    by (simp add: desk_edge_pos desk_two)
qed

subsection \<open>The eligible windows of a monitor\<close>

text \<open>
  Claim C6. enum_windows_on_monitor returns the handles Windows enumerates, in that
  order, filtered by: visible, class known and not reserved, style known and without
  the tool-window bit, centre on the monitor, placement known and not minimized. In
  particular a window that is minimized when an Idle controller is triggered does not
  enter the minimized set, and the next call does not restore it.
\<close>

theorem enum_windows_exactly_the_eligible:
  "enum_windows_on_monitor w mons idx = filter (eligible_on w mons idx) (EnumWindows w)
   \<and> (\<not> toggled c \<and> cursor_on_allowed w c \<and> already_minimized w h \<longrightarrow>
        h \<notin> set (minimized (fst (toggle_desktop_single_monitor w c)))
        \<and> ShowWindow h SW_RESTORE
             \<notin> set (snd (toggle_desktop_single_monitor w2 (fst (toggle_desktop_single_monitor w c)))))"
proof (intro conjI impI)
  show "enum_windows_on_monitor w mons idx = filter (eligible_on w mons idx) (EnumWindows w)"
    by (rule enum_windows_filter)
next
  assume a: "\<not> toggled c \<and> cursor_on_allowed w c \<and> already_minimized w h"
  let ?wins = "filter (eligible_on w (monitors c) (allowed c)) (EnumWindows w)"
  let ?c1 = "c\<lparr>minimized := ?wins, toggled := True\<rparr>"
  have c1: "fst (toggle_desktop_single_monitor w c) = ?c1"
    using a by (simp add: toggle_idle)
  have out: "h \<notin> set ?wins"
    using a by (simp add: eligible_on_def not_minimized_def already_minimized_def)
  show "h \<notin> set (minimized (fst (toggle_desktop_single_monitor w c)))"
    using out by (simp add: c1)
  show "ShowWindow h SW_RESTORE
      \<notin> set (snd (toggle_desktop_single_monitor w2 (fst (toggle_desktop_single_monitor w c))))"
  proof (cases "cursor_on_allowed w2 ?c1")
    case True
    then show ?thesis
      using out by (auto simp: c1 toggle_minimized)
  next
    case False
    then show ?thesis
      by (simp add: c1 toggle_off)
  qed
qed

text \<open>
  C6 on the concrete desktop: of the six windows, 10 and 15 are returned; window 13,
  minimized before the trigger, is neither stored nor restored.
\<close>

theorem enum_windows_exactly_the_eligible_witness:
  "enum_windows_on_monitor desk (get_monitors desk) 0 = [10, 15]
   \<and> filter (eligible_on desk (get_monitors desk) 0) (EnumWindows desk) = [10, 15]
   \<and> already_minimized desk 13
   \<and> 13 \<notin> set (minimized (fst (toggle_desktop_single_monitor desk ctrl0)))
   \<and> ShowWindow 13 SW_RESTORE
        \<notin> set (snd (toggle_desktop_single_monitor desk (fst (toggle_desktop_single_monitor desk ctrl0))))"
proof -
  note enum = enum_windows_exactly_the_eligible [of desk "get_monitors desk" 0 ctrl0 13 desk]
  have pre: "\<not> toggled ctrl0 \<and> cursor_on_allowed desk ctrl0 \<and> already_minimized desk 13"
    by (simp add: ctrl0_fields ctrl0_on desk_13)
  from enum have "filter (eligible_on desk (get_monitors desk) 0) (EnumWindows desk) = [10, 15]"
    by (simp add: desk_enum)
  with enum pre show ?thesis
    by (simp add: desk_enum)
qed

subsection \<open>A hook that cannot be installed\<close>

text \<open>
  Claim C7. When SetWindowsHookExW returns NULL, \<open>run\<close> raises OSError in the hook
  thread and the thread dies of it, while \<open>start\<close> has returned normally to its
  caller: the caller gets no error.
\<close>

theorem start_returns_when_hook_refused:
  "start hook_refused False WinDHook_init =
     (Returned (),
      Some (Died ''Failed to install keyboard hook'', \<lparr>hook = None, thread_id = Some 4242\<rparr>))"
  by (simp add: start_def run_def hook_refused_def WinDHook_init_def)

subsection \<open>The invariant of the toggle state\<close>

text \<open>
  Claim C8. After initialization and any sequence of trigger, set_allowed and
  refresh_monitors: in phase Idle the minimized set is empty; in phase Minimized the
  minimize calls made by the most recent step from Idle to Minimized are exactly one
  call per element of the minimized set, in the same order, and that order is the
  order in which Windows enumerated these windows at that step. "Minimized by this
  subsystem" is read as "this subsystem asked Windows to minimize it": a ShowWindow
  that fails is ignored by the program.
\<close>

theorem toggle_state_invariant:
  "(\<not> toggled (ctrl (run_ops ops (Controller_init f w0)))
      \<longrightarrow> minimized (ctrl (run_ops ops (Controller_init f w0))) = [])
   \<and> (toggled (ctrl (run_ops ops (Controller_init f w0))) \<longrightarrow>
        (\<exists>w. last_transition ops (Controller_init f w0) None
               = Some (w, map (\<lambda>h. ShowWindow h SW_MINIMIZE)
                            (minimized (ctrl (run_ops ops (Controller_init f w0)))))
          \<and> minimized (ctrl (run_ops ops (Controller_init f w0)))
               = filter (\<lambda>h. h \<in> set (minimized (ctrl (run_ops ops (Controller_init f w0)))))
                   (EnumWindows w)))"
  by (rule run_ops_inv) (simp_all add: init_idle)

text \<open>
  C8 on a session that leaves windows 10 and 15 minimized while the allowed monitor is
  changed, and on the same session followed by the trigger that restores them.
\<close>

theorem toggle_state_invariant_witness:
  "toggled (ctrl (run_ops session (Controller_init NoFile desk)))
   \<and> minimized (ctrl (run_ops session (Controller_init NoFile desk))) = [10, 15]
   \<and> last_transition session (Controller_init NoFile desk) None
       = Some (desk, [ShowWindow 10 SW_MINIMIZE, ShowWindow 15 SW_MINIMIZE])
   \<and> \<not> toggled (ctrl (run_ops session_restored (Controller_init NoFile desk)))
   \<and> minimized (ctrl (run_ops session_restored (Controller_init NoFile desk))) = []"
proof -
  from toggle_state_invariant [of session_restored NoFile desk] session_restored_idle
  have "minimized (ctrl (run_ops session_restored (Controller_init NoFile desk))) = []"
    by blast
  moreover from toggle_state_invariant [of session NoFile desk] session_fields(1)
  obtain w where "last_transition session (Controller_init NoFile desk) None
         = Some (w, map (\<lambda>h. ShowWindow h SW_MINIMIZE)
                  (minimized (ctrl (run_ops session (Controller_init NoFile desk)))))"
    by blast
  ultimately show ?thesis
    using session_fields session_last session_restored_idle by simp
qed

subsection \<open>What set_allowed changes\<close>

text \<open>
  Claim C9, as amended. set_allowed updates the allowed-monitor selection under the
  controller's lock: it acquires the lock, assigns, and releases the lock also when it
  raises, no statement of it runs without the lock, and while the lock is held
  elsewhere (here: inside the locked block of the trigger) it waits and changes
  nothing. The selection becomes max(0, idx); the phase, the minimized set and the
  monitor snapshot are left alone. Unlike the claim says, set_allowed also copies the
  value into the configuration dictionary and persists the configuration itself, inside
  the lock: when the write succeeds the file holds the new value, and when it fails
  set_allowed raises with the selection changed all the same.
\<close>

theorem set_allowed_updates_selection_and_saves:
  "exec_stmts w (run_start s) (set_allowed_stmts idx) =
     \<lparr>now = outcome_state (set_allowed w idx s), lock_held = False,
      raised = (write_text w \<noteq> Written), waiting = False, unguarded = []\<rparr>
   \<and> exec_stmts w (exec_stmts w (run_start s) (butlast toggle_locked_stmts)) (set_allowed_stmts idx) =
     \<lparr>now = s, lock_held = True, raised = False, waiting = True, unguarded = []\<rparr>
   \<and> allowed (ctrl (outcome_state (set_allowed w idx s))) = max 0 idx
   \<and> cfg (ctrl (outcome_state (set_allowed w idx s)))
       = (cfg (ctrl s))\<lparr>allowed_monitor := max 0 idx\<rparr>
   \<and> toggled (ctrl (outcome_state (set_allowed w idx s))) = toggled (ctrl s)
   \<and> minimized (ctrl (outcome_state (set_allowed w idx s))) = minimized (ctrl s)
   \<and> monitors (ctrl (outcome_state (set_allowed w idx s))) = monitors (ctrl s)
   \<and> (write_text w = Written \<longrightarrow>
        set_allowed w idx s = Returned (outcome_state (set_allowed w idx s))
        \<and> config_path (outcome_state (set_allowed w idx s))
            = Json (Some (max 0 idx)) (Some (autostart (cfg (ctrl s)))))
   \<and> (write_text w \<noteq> Written \<longrightarrow>
        set_allowed w idx s = Raised (outcome_state (set_allowed w idx s)))"
proof -
  have "(write_text w = Written \<longrightarrow>
        set_allowed w idx s = Returned (outcome_state (set_allowed w idx s))
        \<and> config_path (outcome_state (set_allowed w idx s))
            = Json (Some (max 0 idx)) (Some (autostart (cfg (ctrl s)))))
   \<and> (write_text w \<noteq> Written \<longrightarrow>
        set_allowed w idx s = Raised (outcome_state (set_allowed w idx s)))"
    by (cases "write_text w") (simp_all add: set_allowed_def save_config_def Let_def)
  then show ?thesis
    by (simp only: set_allowed_stmts_run set_allowed_stmts_wait simp_thms)
      (simp add: set_allowed_state)
qed

text \<open>
  C9 on the concrete desktop, with a write that succeeds and with one that fails after
  the file was opened.
\<close>

theorem set_allowed_updates_selection_and_saves_witness:
  "write_text desk = Written
   \<and> exec_stmts desk (run_start (Controller_init NoFile desk)) (set_allowed_stmts 1) =
       \<lparr>now = \<lparr>ctrl = ctrl0\<lparr>allowed := 1, cfg := \<lparr>allowed_monitor = 1, autostart = False\<rparr>\<rparr>,
                config_path = Json (Some 1) (Some False)\<rparr>,
        lock_held = False, raised = False, waiting = False, unguarded = []\<rparr>
   \<and> set_allowed desk 1 (Controller_init NoFile desk)
       = Returned \<lparr>ctrl = ctrl0\<lparr>allowed := 1, cfg := \<lparr>allowed_monitor = 1, autostart = False\<rparr>\<rparr>,
                   config_path = Json (Some 1) (Some False)\<rparr>
   \<and> write_text (desk\<lparr>write_text := Cut_short\<rparr>) \<noteq> Written
   \<and> set_allowed (desk\<lparr>write_text := Cut_short\<rparr>) 1 (Controller_init NoFile desk)
       = Raised \<lparr>ctrl = ctrl0\<lparr>allowed := 1, cfg := \<lparr>allowed_monitor = 1, autostart = False\<rparr>\<rparr>,
                 config_path = Unreadable\<rparr>"
proof -
  have good: "outcome_state (set_allowed desk 1 (Controller_init NoFile desk))
      = \<lparr>ctrl = ctrl0\<lparr>allowed := 1, cfg := \<lparr>allowed_monitor = 1, autostart = False\<rparr>\<rparr>,
         config_path = Json (Some 1) (Some False)\<rparr>"
    by (simp add: set_allowed_state desk_writes init_desk ctrl0_rec)
  have bad: "outcome_state (set_allowed (desk\<lparr>write_text := Cut_short\<rparr>) 1 (Controller_init NoFile desk))
      = \<lparr>ctrl = ctrl0\<lparr>allowed := 1, cfg := \<lparr>allowed_monitor = 1, autostart = False\<rparr>\<rparr>,
         config_path = Unreadable\<rparr>"
    by (simp add: set_allowed_state init_desk ctrl0_rec)
  show ?thesis
    using set_allowed_updates_selection_and_saves [of desk "Controller_init NoFile desk" 1]
      set_allowed_updates_selection_and_saves
        [of "desk\<lparr>write_text := Cut_short\<rparr>" "Controller_init NoFile desk" 1]
      desk_writes
    by (simp add: good bad)
qed

text \<open>
  C9 as stated fails: there is no configuration file before set_allowed(1), and there
  is one, holding the new value, after it.
\<close>

theorem set_allowed_persists_counterexample:
  "config_path (Controller_init NoFile desk) = NoFile
   \<and> set_allowed desk 1 (Controller_init NoFile desk)
       = Returned \<lparr>ctrl = ctrl0\<lparr>allowed := 1, cfg := \<lparr>allowed_monitor = 1, autostart = False\<rparr>\<rparr>,
                   config_path = Json (Some 1) (Some False)\<rparr>"
  by (simp add: set_allowed_def save_config_def Let_def desk_writes init_desk ctrl0_rec)

subsection \<open>The allowed monitor after initialization\<close>

text \<open>
  Claim C10. set_allowed stores max(0, idx): called with -1 it stores 0. The other
  writer of the allowed monitor, the initialization, does not clamp: from a
  configuration file that holds -1 the controller starts with -1 as its allowed monitor
  and keeps it through a trigger and a refresh, so the allowed monitor is not always
  \<open>\<ge> 0\<close>.
\<close>

theorem negative_config_keeps_negative_allowed:
  "allowed (ctrl (Controller_init negative_file desk)) = - 1
   \<and> allowed (ctrl (run_ops [(desk, Trigger), (desk, RefreshMonitors)]
         (Controller_init negative_file desk))) = - 1
   \<and> allowed (ctrl (outcome_state (set_allowed desk (- 1) (Controller_init negative_file desk)))) = 0"
  by (simp add: step_allowed negative_init set_allowed_state del: step.simps)

end
